theory Spec2Isabelle
  imports Complex_Main "HOL-Library.Product_Lexorder" "HOL-Library.AList"
begin

section \<open>Calendar dates and naive datetimes\<close>

text \<open>
  The scheduler of \<^verbatim>\<open>actions.py\<close> works on Python's naive \<^verbatim>\<open>datetime\<close>
  values. A datetime is the record of its seven fields; the library operations the
  scheduler calls (\<^verbatim>\<open>replace\<close>, the constructor, \<^verbatim>\<open>+ timedelta\<close>,
  \<^verbatim>\<open>weekday\<close>, comparison, \<^verbatim>\<open>calendar.monthrange\<close>) are written out below with
  the errors they raise as values.
\<close>

datatype py_error =
    ValueError
  | OverflowError
  | IllegalMonthError
  | BaseExceptionRaised string

record datetime =
  year :: int
  month :: int
  day :: int
  hour :: int
  minute :: int
  second :: int
  microsecond :: int

text \<open>\<^verbatim>\<open>datetime.time\<close>, as far as the scheduler reads it.\<close>

record dt_time =
  t_hour :: int
  t_minute :: int
  t_second :: int

definition MINYEAR :: int where "MINYEAR = 1"
definition MAXYEAR :: int where "MAXYEAR = 9999"

definition is_leap :: "int \<Rightarrow> bool" where
  "is_leap y \<longleftrightarrow> y mod 4 = 0 \<and> (y mod 100 \<noteq> 0 \<or> y mod 400 = 0)"

definition mdays :: "int \<Rightarrow> int" where
  "mdays m =
     (if m = 1 then 31 else if m = 2 then 28 else if m = 3 then 31
      else if m = 4 then 30 else if m = 5 then 31 else if m = 6 then 30
      else if m = 7 then 31 else if m = 8 then 31 else if m = 9 then 30
      else if m = 10 then 31 else if m = 11 then 30 else 31)"

definition days_in_month :: "int \<Rightarrow> int \<Rightarrow> int" where
  "days_in_month y m = (if m = 2 \<and> is_leap y then 29 else mdays m)"

text \<open>
  \<^verbatim>\<open>calendar.monthrange(year, month)[1]\<close>: the number of days of the month;
  the call raises \<^verbatim>\<open>IllegalMonthError\<close> for a month outside 1..12 and accepts
  any year.
\<close>

definition monthrange :: "int \<Rightarrow> int \<Rightarrow> py_error + int" where
  "monthrange y m =
     (if \<not> (1 \<le> m \<and> m \<le> 12) then Inl IllegalMonthError
      else Inr (mdays m + (if m = 2 \<and> is_leap y then 1 else 0)))"

definition days_before_year :: "int \<Rightarrow> int" where
  "days_before_year y =
     (let p = y - 1 in p * 365 + p div 4 - p div 100 + p div 400)"

definition days_before_month_tab :: "int \<Rightarrow> int" where
  "days_before_month_tab m =
     (if m = 1 then 0 else if m = 2 then 31 else if m = 3 then 59
      else if m = 4 then 90 else if m = 5 then 120 else if m = 6 then 151
      else if m = 7 then 181 else if m = 8 then 212 else if m = 9 then 243
      else if m = 10 then 273 else if m = 11 then 304 else 334)"

definition days_before_month :: "int \<Rightarrow> int \<Rightarrow> int" where
  "days_before_month y m =
     days_before_month_tab m + (if m > 2 \<and> is_leap y then 1 else 0)"

text \<open>The proleptic Gregorian ordinal of a date (1 is 0001-01-01).\<close>

definition ymd2ord :: "int \<times> int \<times> int \<Rightarrow> int" where
  "ymd2ord ymd =
     (case ymd of (y, m, d) \<Rightarrow> days_before_year y + days_before_month y m + d)"

definition toordinal :: "datetime \<Rightarrow> int" where
  "toordinal dt = ymd2ord (year dt, month dt, day dt)"

text \<open>\<^verbatim>\<open>datetime.weekday()\<close>: Monday is 0, Sunday is 6.\<close>

definition weekday :: "datetime \<Rightarrow> int" where
  "weekday dt = (toordinal dt + 6) mod 7"

definition valid_date :: "int \<times> int \<times> int \<Rightarrow> bool" where
  "valid_date ymd \<longleftrightarrow>
     (case ymd of (y, m, d) \<Rightarrow>
        MINYEAR \<le> y \<and> y \<le> MAXYEAR \<and> 1 \<le> m \<and> m \<le> 12 \<and>
        1 \<le> d \<and> d \<le> days_in_month y m)"

text \<open>A month and a day that exist in the calendar, in any year.\<close>

definition cal_date :: "int \<times> int \<times> int \<Rightarrow> bool" where
  "cal_date ymd \<longleftrightarrow> (case ymd of (y, m, d) \<Rightarrow> 1 \<le> m \<and> m \<le> 12 \<and> 1 \<le> d \<and> d \<le> days_in_month y m)"

definition valid_time_fields :: "int \<Rightarrow> int \<Rightarrow> int \<Rightarrow> int \<Rightarrow> bool" where
  "valid_time_fields h mi s us \<longleftrightarrow>
     0 \<le> h \<and> h \<le> 23 \<and> 0 \<le> mi \<and> mi \<le> 59 \<and> 0 \<le> s \<and> s \<le> 59 \<and>
     0 \<le> us \<and> us \<le> 999999"

text \<open>The values the type \<^verbatim>\<open>datetime\<close> holds: its constructor admits no other.\<close>

definition valid_datetime :: "datetime \<Rightarrow> bool" where
  "valid_datetime dt \<longleftrightarrow>
     valid_date (year dt, month dt, day dt) \<and>
     valid_time_fields (hour dt) (minute dt) (second dt) (microsecond dt)"

definition valid_dt_time :: "dt_time \<Rightarrow> bool" where
  "valid_dt_time t \<longleftrightarrow> valid_time_fields (t_hour t) (t_minute t) (t_second t) 0"

text \<open>
  The constructor \<^verbatim>\<open>datetime(year, month, day, hour, minute, second, microsecond)\<close>:
  every field out of range is a \<^verbatim>\<open>ValueError\<close>.
\<close>

definition mk_datetime ::
  "int \<Rightarrow> int \<Rightarrow> int \<Rightarrow> int \<Rightarrow> int \<Rightarrow> int \<Rightarrow> int \<Rightarrow> py_error + datetime" where
  "mk_datetime y m d h mi s us =
     (if valid_date (y, m, d) \<and> valid_time_fields h mi s us
      then Inr \<lparr>year = y, month = m, day = d, hour = h, minute = mi,
                second = s, microsecond = us\<rparr>
      else Inl ValueError)"

text \<open>
  \<^verbatim>\<open>dt.replace(hour=.., minute=.., second=.., microsecond=..)\<close>: a keyword that is
  not given (\<open>None\<close> here) keeps the field; the result goes through the constructor.
\<close>

definition replace_time ::
  "datetime \<Rightarrow> int option \<Rightarrow> int option \<Rightarrow> int option \<Rightarrow> int option
     \<Rightarrow> py_error + datetime" where
  "replace_time dt h mi s us =
     mk_datetime (year dt) (month dt) (day dt)
       (case h of None \<Rightarrow> hour dt | Some v \<Rightarrow> v)
       (case mi of None \<Rightarrow> minute dt | Some v \<Rightarrow> v)
       (case s of None \<Rightarrow> second dt | Some v \<Rightarrow> v)
       (case us of None \<Rightarrow> microsecond dt | Some v \<Rightarrow> v)"

text \<open>
  Comparison of naive datetimes is the lexicographic comparison of the field tuples.
\<close>

definition dt_key :: "datetime \<Rightarrow> int \<times> int \<times> int \<times> int \<times> int \<times> int \<times> int" where
  "dt_key dt =
     (year dt, month dt, day dt, hour dt, minute dt, second dt, microsecond dt)"

definition dt_le :: "datetime \<Rightarrow> datetime \<Rightarrow> bool" where
  "dt_le a b \<longleftrightarrow> dt_key a \<le> dt_key b"

definition dt_less :: "datetime \<Rightarrow> datetime \<Rightarrow> bool" where
  "dt_less a b \<longleftrightarrow> dt_key a < dt_key b"

subsection \<open>Adding a timedelta\<close>

text \<open>
  A \<^verbatim>\<open>timedelta\<close> in normal form: any number of days, seconds in 0..86399,
  microseconds in 0..999999. The constructor normalises its keyword arguments.
\<close>

record timedelta =
  td_days :: int
  td_seconds :: int
  td_microseconds :: int

definition mk_timedelta :: "int \<Rightarrow> int \<Rightarrow> int \<Rightarrow> int \<Rightarrow> timedelta" where
  "mk_timedelta days hours minutes seconds =
     (let total = hours * 3600 + minutes * 60 + seconds
      in \<lparr>td_days = days + total div 86400, td_seconds = total mod 86400,
          td_microseconds = 0\<rparr>)"

text \<open>
  The day after and the day before a date. Moving a date by \<open>n\<close> days is \<open>n\<close> such
  steps; \<open>ymd2ord_date_succ\<close> and \<open>ymd2ord_date_shift\<close> below show that this is the
  date whose ordinal is \<open>n\<close> larger, which is how the library computes it.
\<close>

definition date_succ :: "int \<times> int \<times> int \<Rightarrow> int \<times> int \<times> int" where
  "date_succ ymd =
     (case ymd of (y, m, d) \<Rightarrow>
        if d < days_in_month y m then (y, m, d + 1)
        else if m < 12 then (y, m + 1, 1)
        else (y + 1, 1, 1))"

definition date_pred :: "int \<times> int \<times> int \<Rightarrow> int \<times> int \<times> int" where
  "date_pred ymd =
     (case ymd of (y, m, d) \<Rightarrow>
        if 1 < d then (y, m, d - 1)
        else if 1 < m then (y, m - 1, days_in_month y (m - 1))
        else (y - 1, 12, 31))"

primrec date_steps :: "(int \<times> int \<times> int \<Rightarrow> int \<times> int \<times> int) \<Rightarrow> nat
    \<Rightarrow> int \<times> int \<times> int \<Rightarrow> int \<times> int \<times> int" where
  "date_steps f 0 ymd = ymd"
| "date_steps f (Suc n) ymd = date_steps f n (f ymd)"

definition date_shift :: "int \<times> int \<times> int \<Rightarrow> int \<Rightarrow> int \<times> int \<times> int" where
  "date_shift ymd n =
     (if 0 \<le> n then date_steps date_succ (nat n) ymd
      else date_steps date_pred (nat (- n)) ymd)"

text \<open>
  \<^verbatim>\<open>datetime.__add__\<close>: the fields of the time of day and the timedelta are summed
  and carried upwards; a date outside the years 1..9999 is an \<^verbatim>\<open>OverflowError\<close>.
\<close>

definition dt_add :: "datetime \<Rightarrow> timedelta \<Rightarrow> py_error + datetime" where
  "dt_add dt td =
     (let us = microsecond dt + td_microseconds td;
          secs = hour dt * 3600 + minute dt * 60 + second dt + td_seconds td
                 + us div 1000000;
          days = td_days td + secs div 86400;
          rem = secs mod 86400;
          ymd = date_shift (year dt, month dt, day dt) days
      in case ymd of (y, m, d) \<Rightarrow>
           if MINYEAR \<le> y \<and> y \<le> MAXYEAR
           then Inr \<lparr>year = y, month = m, day = d, hour = rem div 3600,
                     minute = (rem mod 3600) div 60, second = rem mod 60,
                     microsecond = us mod 1000000\<rparr>
           else Inl OverflowError)"

text \<open>
  The last step of the addition: the date moved by \<open>k\<close> days, with the given time of
  day, if its year is in range.
\<close>

definition shifted :: "datetime \<Rightarrow> int \<Rightarrow> int \<Rightarrow> int \<Rightarrow> int \<Rightarrow> int \<Rightarrow> py_error + datetime" where
  "shifted dt k h m s us =
     (case date_shift (year dt, month dt, day dt) k of
        (y, mo, d) \<Rightarrow>
          if MINYEAR \<le> y \<and> y \<le> MAXYEAR
          then Inr \<lparr>year = y, month = mo, day = d, hour = h, minute = m, second = s,
                    microsecond = us\<rparr>
          else Inl OverflowError)"

section \<open>Trigger configuration (config.py)\<close>

datatype TriggerType = EVENT | MINUTELY | HOURLY | DAILY | WEEKLY | MONTHLY

text \<open>
  \<^verbatim>\<open>ActionTriggerConfig\<close>; the fields \<^verbatim>\<open>type\<close>, \<^verbatim>\<open>time\<close>, \<^verbatim>\<open>weekday\<close>,
  \<^verbatim>\<open>day\<close> and \<^verbatim>\<open>minute\<close> carry the prefix \<open>trigger_\<close> here.
\<close>

record ActionTriggerConfig =
  trigger_type :: TriggerType
  trigger_time :: "dt_time option"
  trigger_weekday :: "int option"
  trigger_day :: "int option"
  trigger_minute :: "int option"

text \<open>
  The triggers that \<^verbatim>\<open>_parse_action_trigger\<close> builds: a time of day that the type
  \<^verbatim>\<open>datetime.time\<close> admits, a weekday in 0..6, a day in 1..31, a minute in 0..59.
\<close>

definition valid_trigger :: "ActionTriggerConfig \<Rightarrow> bool" where
  "valid_trigger t \<longleftrightarrow>
     (case trigger_time t of None \<Rightarrow> True | Some tm \<Rightarrow> valid_dt_time tm) \<and>
     (case trigger_weekday t of None \<Rightarrow> True | Some v \<Rightarrow> 0 \<le> v \<and> v \<le> 6) \<and>
     (case trigger_day t of None \<Rightarrow> True | Some v \<Rightarrow> 1 \<le> v \<and> v \<le> 31) \<and>
     (case trigger_minute t of None \<Rightarrow> True | Some v \<Rightarrow> 0 \<le> v \<and> v \<le> 59)"

section \<open>The trigger scheduler (actions.py)\<close>

definition DEFAULT_TIME :: dt_time where
  "DEFAULT_TIME = \<lparr>t_hour = 0, t_minute = 0, t_second = 0\<rparr>"

definition clamped_month_datetime ::
  "int \<Rightarrow> int \<Rightarrow> int \<Rightarrow> dt_time \<Rightarrow> py_error + datetime" where
  "clamped_month_datetime y m d time_of_day =
     (case monthrange y m of
        Inl e \<Rightarrow> Inl e
      | Inr last_day \<Rightarrow>
          let target_day = min d last_day
          in mk_datetime y m target_day (t_hour time_of_day) (t_minute time_of_day)
               (t_second time_of_day) 0)"

definition compute_next_run ::
  "ActionTriggerConfig \<Rightarrow> datetime \<Rightarrow> py_error + datetime option" where
  "compute_next_run trigger reference =
     (if trigger_type trigger = EVENT then Inr None
      else if trigger_type trigger = MINUTELY then
        (let sec = (case trigger_time trigger of Some t \<Rightarrow> t_second t | None \<Rightarrow> 0)
         in case replace_time reference None None (Some sec) (Some 0) of
              Inl e \<Rightarrow> Inl e
            | Inr base \<Rightarrow>
                if dt_le base reference
                then (case dt_add base (mk_timedelta 0 0 1 0) of
                        Inl e \<Rightarrow> Inl e | Inr base' \<Rightarrow> Inr (Some base'))
                else Inr (Some base))
      else if trigger_type trigger = HOURLY then
        (let mi = (case trigger_minute trigger of Some v \<Rightarrow> v | None \<Rightarrow> 0);
             sec = (case trigger_time trigger of Some t \<Rightarrow> t_second t | None \<Rightarrow> 0)
         in case replace_time reference None (Some mi) (Some sec) (Some 0) of
              Inl e \<Rightarrow> Inl e
            | Inr base \<Rightarrow>
                if dt_le base reference
                then (case dt_add base (mk_timedelta 0 1 0 0) of
                        Inl e \<Rightarrow> Inl e | Inr base' \<Rightarrow> Inr (Some base'))
                else Inr (Some base))
      else
        (let time_of_day =
               (case trigger_time trigger of Some t \<Rightarrow> t | None \<Rightarrow> DEFAULT_TIME)
         in case replace_time reference (Some (t_hour time_of_day))
                   (Some (t_minute time_of_day)) (Some (t_second time_of_day)) (Some 0) of
              Inl e \<Rightarrow> Inl e
            | Inr base \<Rightarrow>
                if trigger_type trigger = DAILY then
                  (if dt_le base reference
                   then (case dt_add base (mk_timedelta 1 0 0 0) of
                           Inl e \<Rightarrow> Inl e | Inr base' \<Rightarrow> Inr (Some base'))
                   else Inr (Some base))
                else if trigger_type trigger = WEEKLY then
                  (let wd = (case trigger_weekday trigger of
                               Some v \<Rightarrow> v | None \<Rightarrow> weekday reference);
                       days_ahead = (wd - weekday base) mod 7
                   in case dt_add base (mk_timedelta days_ahead 0 0 0) of
                        Inl e \<Rightarrow> Inl e
                      | Inr candidate \<Rightarrow>
                          if dt_le candidate reference
                          then (case dt_add candidate (mk_timedelta 7 0 0 0) of
                                  Inl e \<Rightarrow> Inl e
                                | Inr candidate' \<Rightarrow> Inr (Some candidate'))
                          else Inr (Some candidate))
                else if trigger_type trigger = MONTHLY then
                  (let d = (case trigger_day trigger of
                              Some v \<Rightarrow> v | None \<Rightarrow> day reference);
                       y = year base;
                       m = month base
                   in case clamped_month_datetime y m d time_of_day of
                        Inl e \<Rightarrow> Inl e
                      | Inr candidate \<Rightarrow>
                          if dt_le candidate reference
                          then (let m1 = m + 1;
                                    y' = (if m1 > 12 then y + 1 else y);
                                    m' = (if m1 > 12 then 1 else m1)
                                in case clamped_month_datetime y' m' d time_of_day of
                                     Inl e \<Rightarrow> Inl e
                                   | Inr candidate' \<Rightarrow> Inr (Some candidate'))
                          else Inr (Some candidate))
                else Inr None))"

text \<open>
  The candidate of a monthly trigger in the month \<open>m\<close> of the year \<open>y\<close>: the day
  \<open>d\<close>, or the last day of that month when the month is shorter.
\<close>

definition month_candidate :: "int \<Rightarrow> dt_time \<Rightarrow> int \<Rightarrow> int \<Rightarrow> datetime" where
  "month_candidate d tod y m =
     \<lparr>year = y, month = m, day = min d (days_in_month y m),
      hour = t_hour tod, minute = t_minute tod, second = t_second tod, microsecond = 0\<rparr>"

text \<open>
  What the scheduler owes its caller: an instant after the reference, or an error that
  only the last month of the year 9999 can cause.
\<close>

definition after_or_overflow :: "datetime \<Rightarrow> py_error + datetime \<Rightarrow> bool" where
  "after_or_overflow r res \<longleftrightarrow>
     (\<exists>d. res = Inr d \<and> valid_datetime d \<and> dt_less r d) \<or>
     (res = Inl OverflowError \<and> year r = 9999 \<and> month r = 12)"

definition next_run_after :: "datetime \<Rightarrow> py_error + datetime option \<Rightarrow> bool" where
  "next_run_after r res \<longleftrightarrow>
     (\<exists>d. res = Inr (Some d) \<and> valid_datetime d \<and> dt_less r d) \<or>
     ((res = Inl OverflowError \<or> res = Inl ValueError) \<and> year r = 9999 \<and> month r = 12)"

section \<open>Snapshots and change records (events.py)\<close>

text \<open>
  A path is its string. A snapshot is a Python \<^verbatim>\<open>dict\<close> from path to
  \<^verbatim>\<open>(mtime, size)\<close>: the list of its items in iteration order, whose keys are
  distinct (\<open>snapshot_ok\<close>). \<^verbatim>\<open>old.get(p)\<close> is \<open>map_of old p\<close>. The modification
  time is a real number (a float that is never NaN, as \<^verbatim>\<open>st_mtime\<close> is).
\<close>

type_synonym path = string

type_synonym snapshot = "(path \<times> (real \<times> int)) list"

definition snapshot_ok :: "snapshot \<Rightarrow> bool" where
  "snapshot_ok s \<longleftrightarrow> distinct (map fst s)"

datatype EventType = CREATED | MODIFIED | DELETED | MOVED

text \<open>\<^verbatim>\<open>FileEvent\<close>; its field \<^verbatim>\<open>size\<close> is \<open>size_val\<close> here.\<close>

record FileEvent =
  event_type :: EventType
  path :: path
  previous_path :: "path option"
  size_val :: "int option"
  mtime :: "real option"

section \<open>The change detector\<close>

text \<open>
  \<^verbatim>\<open>_diff_snapshots\<close> of \<^verbatim>\<open>actions.py\<close>: the first loop runs over the items of
  \<open>new\<close> and fills \<open>events\<close> and \<open>seen\<close>, the second runs over the items of \<open>old\<close>.
\<close>

fun diff_new_items ::
  "snapshot \<Rightarrow> snapshot \<Rightarrow> FileEvent list \<Rightarrow> path set \<Rightarrow> FileEvent list \<times> path set" where
  "diff_new_items old [] events seen = (events, seen)"
| "diff_new_items old ((p, (mt, sz)) # rest) events seen =
     (case map_of old p of
        None \<Rightarrow>
          diff_new_items old rest
            (events @ [\<lparr>event_type = CREATED, path = p, previous_path = None,
                         size_val = Some sz, mtime = Some mt\<rparr>])
            (insert p seen)
      | Some (old_mtime, old_size) \<Rightarrow>
          if old_mtime \<noteq> mt \<or> old_size \<noteq> sz
          then diff_new_items old rest
                 (events @ [\<lparr>event_type = MODIFIED, path = p, previous_path = None,
                              size_val = Some sz, mtime = Some mt\<rparr>])
                 (insert p seen)
          else diff_new_items old rest events (insert p seen))"

fun diff_old_items :: "snapshot \<Rightarrow> FileEvent list \<Rightarrow> path set \<Rightarrow> FileEvent list" where
  "diff_old_items [] events seen = events"
| "diff_old_items ((p, (mt, sz)) # rest) events seen =
     (if p \<notin> seen
      then diff_old_items rest
             (events @ [\<lparr>event_type = DELETED, path = p, previous_path = None,
                          size_val = Some sz, mtime = Some mt\<rparr>])
             seen
      else diff_old_items rest events seen)"

definition diff_snapshots :: "snapshot \<Rightarrow> snapshot \<Rightarrow> FileEvent list" where
  "diff_snapshots old new =
     (case diff_new_items old new [] {} of
        (events, seen) \<Rightarrow> diff_old_items old events seen)"

text \<open>
  \<^verbatim>\<open>_diff_snapshots\<close> of \<^verbatim>\<open>monitor.py\<close>, a generator: the result is the list of
  what it yields. It tests \<^verbatim>\<open>path not in old\<close> and then reads \<^verbatim>\<open>old[path]\<close>,
  which is present in that branch.
\<close>

fun monitor_diff_new_items ::
  "snapshot \<Rightarrow> snapshot \<Rightarrow> path set \<Rightarrow> FileEvent list \<times> path set" where
  "monitor_diff_new_items old [] seen = ([], seen)"
| "monitor_diff_new_items old ((p, (mt, sz)) # rest) seen =
     (let yielded =
            (if map_of old p = None
             then [\<lparr>event_type = CREATED, path = p, previous_path = None,
                     size_val = Some sz, mtime = Some mt\<rparr>]
             else (case the (map_of old p) of
                     (old_mtime, old_size) \<Rightarrow>
                       if old_mtime \<noteq> mt \<or> old_size \<noteq> sz
                       then [\<lparr>event_type = MODIFIED, path = p, previous_path = None,
                               size_val = Some sz, mtime = Some mt\<rparr>]
                       else []))
      in case monitor_diff_new_items old rest (insert p seen) of
           (later, seen') \<Rightarrow> (yielded @ later, seen'))"

fun monitor_diff_old_items :: "snapshot \<Rightarrow> path set \<Rightarrow> FileEvent list" where
  "monitor_diff_old_items [] seen = []"
| "monitor_diff_old_items ((p, (mt, sz)) # rest) seen =
     (if p \<notin> seen
      then \<lparr>event_type = DELETED, path = p, previous_path = None,
             size_val = Some sz, mtime = Some mt\<rparr> # monitor_diff_old_items rest seen
      else monitor_diff_old_items rest seen)"

definition monitor_diff_snapshots :: "snapshot \<Rightarrow> snapshot \<Rightarrow> FileEvent list" where
  "monitor_diff_snapshots old new =
     (case monitor_diff_new_items old new {} of
        (yielded, seen) \<Rightarrow> yielded @ monitor_diff_old_items old seen)"

text \<open>
  The rule of the change detector, path by path: the records a diff of \<open>old\<close> and
  \<open>new\<close> is to hold for the path \<open>p\<close>.
\<close>

definition records_for ::
  "snapshot \<Rightarrow> snapshot \<Rightarrow> path \<Rightarrow> FileEvent list" where
  "records_for old new p =
     (case (map_of old p, map_of new p) of
        (None, None) \<Rightarrow> []
      | (None, Some (mt, sz)) \<Rightarrow>
          [\<lparr>event_type = CREATED, path = p, previous_path = None,
            size_val = Some sz, mtime = Some mt\<rparr>]
      | (Some (old_mtime, old_size), Some (mt, sz)) \<Rightarrow>
          if (old_mtime, old_size) \<noteq> (mt, sz)
          then [\<lparr>event_type = MODIFIED, path = p, previous_path = None,
                  size_val = Some sz, mtime = Some mt\<rparr>]
          else []
      | (Some (old_mtime, old_size), None) \<Rightarrow>
          [\<lparr>event_type = DELETED, path = p, previous_path = None,
            size_val = Some old_size, mtime = Some old_mtime\<rparr>])"

text \<open>
  What one item of \<open>new\<close> and one item of \<open>old\<close> add to the result; the loops
  above are shown below to concatenate these.
\<close>

definition new_item_events :: "snapshot \<Rightarrow> path \<times> real \<times> int \<Rightarrow> FileEvent list" where
  "new_item_events old item =
     (case item of (p, (mt, sz)) \<Rightarrow>
        (case map_of old p of
           None \<Rightarrow> [\<lparr>event_type = CREATED, path = p, previous_path = None,
                     size_val = Some sz, mtime = Some mt\<rparr>]
         | Some (old_mtime, old_size) \<Rightarrow>
             if old_mtime \<noteq> mt \<or> old_size \<noteq> sz
             then [\<lparr>event_type = MODIFIED, path = p, previous_path = None,
                     size_val = Some sz, mtime = Some mt\<rparr>]
             else []))"

definition old_item_events :: "path set \<Rightarrow> path \<times> real \<times> int \<Rightarrow> FileEvent list" where
  "old_item_events seen item =
     (case item of (p, (mt, sz)) \<Rightarrow>
        if p \<notin> seen
        then [\<lparr>event_type = DELETED, path = p, previous_path = None,
                size_val = Some sz, mtime = Some mt\<rparr>]
        else [])"

section \<open>Actions and their registry (actions.py)\<close>

text \<open>
  \<^verbatim>\<open>ActionContext\<close>; its fields \<^verbatim>\<open>root_path\<close>, \<^verbatim>\<open>snapshot\<close>, \<^verbatim>\<open>event\<close> and
  \<^verbatim>\<open>modified_events\<close> carry the prefix \<open>ctx_\<close> here.
\<close>

record ActionContext =
  ctx_root_path :: path
  ctx_snapshot :: snapshot
  ctx_event :: "FileEvent option"
  ctx_modified_events :: "FileEvent list"

text \<open>
  The option bag of an action is opaque to the registry, which only hands it to the
  callback.
\<close>

type_synonym options = "(string \<times> string) list"

text \<open>
  What a call of a callback does, as far as the registry can tell: it returns, or it
  raises. \<^verbatim>\<open>except Exception\<close> tells an instance of \<^verbatim>\<open>Exception\<close> from the other
  instances of \<^verbatim>\<open>BaseException\<close> (\<^verbatim>\<open>KeyboardInterrupt\<close>, \<^verbatim>\<open>SystemExit\<close>,
  \<^verbatim>\<open>GeneratorExit\<close>), so the outcome does too. The string is the message. A callback
  may have effects of its own: it is a function on a state \<open>'w\<close> of the world outside
  the registry.
\<close>

datatype outcome = Returned | Raised_Exception string | Raised_BaseException string

type_synonym 'w ActionCallback = "ActionContext \<Rightarrow> options \<Rightarrow> 'w \<Rightarrow> outcome \<times> 'w"

text \<open>\<^verbatim>\<open>Action\<close>; its fields carry the prefix \<open>act_\<close> here.\<close>

record 'w Action =
  act_name :: string
  act_callback :: "'w ActionCallback"
  act_options :: options
  act_trigger :: ActionTriggerConfig
  act_next_run_at :: "datetime option"
  act_previous_snapshot :: "snapshot option"

definition is_event_trigger :: "'w Action \<Rightarrow> bool" where
  "is_event_trigger a \<longleftrightarrow> trigger_type (act_trigger a) = EVENT"

definition schedule_next_run :: "'w Action \<Rightarrow> datetime \<Rightarrow> py_error + 'w Action" where
  "schedule_next_run a reference =
     (case compute_next_run (act_trigger a) reference of
        Inl e \<Rightarrow> Inl e
      | Inr n \<Rightarrow> Inr (a\<lparr>act_next_run_at := n\<rparr>))"

definition invoke :: "'w Action \<Rightarrow> ActionContext \<Rightarrow> 'w \<Rightarrow> outcome \<times> 'w" where
  "invoke a context w = act_callback a context (act_options a) w"

text \<open>
  What a dispatch does that can be seen from outside: the contexts it constructs, the
  callbacks it calls (action name and context), and the failures it logs (action name
  and the event hint). The debug line that \<^verbatim>\<open>invoke\<close> writes before each call is
  left out.
\<close>

datatype effect =
    ContextBuilt ActionContext
  | Invoked string ActionContext
  | LoggedFailure string "FileEvent option"

fun contexts_built :: "effect list \<Rightarrow> ActionContext list" where
  "contexts_built [] = []"
| "contexts_built (ContextBuilt c # es) = c # contexts_built es"
| "contexts_built (e # es) = contexts_built es"

fun invocations :: "effect list \<Rightarrow> (string \<times> ActionContext) list" where
  "invocations [] = []"
| "invocations (Invoked n c # es) = (n, c) # invocations es"
| "invocations (e # es) = invocations es"

text \<open>
  \<^verbatim>\<open>_safe_invoke\<close>. The first component of the result is the exception that leaves
  the function, if any.
\<close>

definition safe_invoke ::
  "'w Action \<Rightarrow> ActionContext \<Rightarrow> FileEvent option \<Rightarrow> 'w
     \<Rightarrow> py_error option \<times> effect list \<times> 'w" where
  "safe_invoke a context event_hint w =
     (case invoke a context w of
        (Returned, w') \<Rightarrow> (None, [Invoked (act_name a) context], w')
      | (Raised_Exception msg, w') \<Rightarrow>
          (None, [Invoked (act_name a) context, LoggedFailure (act_name a) event_hint], w')
      | (Raised_BaseException msg, w') \<Rightarrow>
          (Some (BaseExceptionRaised msg), [Invoked (act_name a) context], w'))"

text \<open>
  \<^verbatim>\<open>ActionRegistry\<close>. The lists \<^verbatim>\<open>_event_actions\<close> and \<^verbatim>\<open>_scheduled_actions\<close>
  hold the objects of \<^verbatim>\<open>_actions\<close>, split by trigger type; \<^verbatim>\<open>_actions\<close> itself is
  only read by \<^verbatim>\<open>__iter__\<close> and is not kept here.
\<close>

record 'w ActionRegistry =
  event_actions :: "'w Action list"
  scheduled_actions :: "'w Action list"

fun schedule_all :: "'w Action list \<Rightarrow> datetime \<Rightarrow> py_error + 'w Action list" where
  "schedule_all [] now = Inr []"
| "schedule_all (a # rest) now =
     (case schedule_next_run a now of
        Inl e \<Rightarrow> Inl e
      | Inr a' \<Rightarrow>
          (case schedule_all rest now of
             Inl e \<Rightarrow> Inl e
           | Inr rest' \<Rightarrow> Inr (a' # rest')))"

text \<open>
  \<^verbatim>\<open>ActionRegistry.__init__\<close>, from the actions that \<^verbatim>\<open>_load_action\<close> has built
  (no due time, no baseline) and the reference time.
\<close>

definition registry_init :: "'w Action list \<Rightarrow> datetime \<Rightarrow> py_error + 'w ActionRegistry" where
  "registry_init actions now =
     (case schedule_all (filter (\<lambda>a. \<not> is_event_trigger a) actions) now of
        Inl e \<Rightarrow> Inl e
      | Inr scheduled \<Rightarrow>
          Inr \<lparr>event_actions = filter is_event_trigger actions,
               scheduled_actions = scheduled\<rparr>)"

fun dispatch_event_loop ::
  "'w Action list \<Rightarrow> ActionContext \<Rightarrow> FileEvent \<Rightarrow> 'w
     \<Rightarrow> py_error option \<times> effect list \<times> 'w" where
  "dispatch_event_loop [] context ev w = (None, [], w)"
| "dispatch_event_loop (a # rest) context ev w =
     (case safe_invoke a context (Some ev) w of
        (Some e, tr, w') \<Rightarrow> (Some e, tr, w')
      | (None, tr, w') \<Rightarrow>
          (case dispatch_event_loop rest context ev w' of
             (r, tr', w'') \<Rightarrow> (r, tr @ tr', w'')))"

definition dispatch_event ::
  "'w ActionRegistry \<Rightarrow> FileEvent \<Rightarrow> path \<Rightarrow> snapshot \<Rightarrow> 'w
     \<Rightarrow> py_error option \<times> effect list \<times> 'w" where
  "dispatch_event reg ev rootp snap w =
     (if event_actions reg = [] then (None, [], w)
      else
        (let context = \<lparr>ctx_root_path = rootp, ctx_snapshot = snap, ctx_event = Some ev,
                        ctx_modified_events = []\<rparr>
         in case dispatch_event_loop (event_actions reg) context ev w of
              (r, tr, w') \<Rightarrow> (r, ContextBuilt context # tr, w')))"

text \<open>
  The context of a scheduled dispatch of the action \<open>a\<close>: the changes since its own
  baseline, none when it has no baseline yet.
\<close>

definition scheduled_context :: "path \<Rightarrow> snapshot \<Rightarrow> 'w Action \<Rightarrow> ActionContext" where
  "scheduled_context rootp snap a =
     (let modified_events =
            (case act_previous_snapshot a of
               None \<Rightarrow> []
             | Some previous \<Rightarrow> diff_snapshots previous snap)
      in \<lparr>ctx_root_path = rootp, ctx_snapshot = snap, ctx_event = None,
          ctx_modified_events = modified_events\<rparr>)"

text \<open>
  The body of the loop of \<^verbatim>\<open>dispatch_scheduled\<close> for one action. The action in the
  result is the object as the body leaves it, also when an exception ends the body.
\<close>

definition dispatch_scheduled_action ::
  "'w Action \<Rightarrow> datetime \<Rightarrow> path \<Rightarrow> snapshot \<Rightarrow> 'w
     \<Rightarrow> py_error option \<times> 'w Action \<times> effect list \<times> 'w" where
  "dispatch_scheduled_action a now rootp snap w =
     (case (if act_next_run_at a = None then schedule_next_run a now else Inr a) of
        Inl e \<Rightarrow> (Some e, a, [], w)
      | Inr a1 \<Rightarrow>
          (case act_next_run_at a1 of
             None \<Rightarrow> (None, a1, [], w)
           | Some due \<Rightarrow>
               if dt_less now due then (None, a1, [], w)
               else
                 (let context = scheduled_context rootp snap a1
                  in case safe_invoke a1 context None w of
                       (Some e, tr, w') \<Rightarrow> (Some e, a1, ContextBuilt context # tr, w')
                     | (None, tr, w') \<Rightarrow>
                         (let a2 = a1\<lparr>act_previous_snapshot := Some snap\<rparr>
                          in case dt_add now (mk_timedelta 0 0 0 1) of
                               Inl e \<Rightarrow> (Some e, a2, ContextBuilt context # tr, w')
                             | Inr reference \<Rightarrow>
                                 (case schedule_next_run a2 reference of
                                    Inl e \<Rightarrow> (Some e, a2, ContextBuilt context # tr, w')
                                  | Inr a3 \<Rightarrow>
                                      (None, a3, ContextBuilt context # tr, w'))))))"

fun dispatch_scheduled_loop ::
  "'w Action list \<Rightarrow> datetime \<Rightarrow> path \<Rightarrow> snapshot \<Rightarrow> 'w
     \<Rightarrow> py_error option \<times> 'w Action list \<times> effect list \<times> 'w" where
  "dispatch_scheduled_loop [] now rootp snap w = (None, [], [], w)"
| "dispatch_scheduled_loop (a # rest) now rootp snap w =
     (case dispatch_scheduled_action a now rootp snap w of
        (Some e, a', tr, w') \<Rightarrow> (Some e, a' # rest, tr, w')
      | (None, a', tr, w') \<Rightarrow>
          (case dispatch_scheduled_loop rest now rootp snap w' of
             (r, rest', tr', w'') \<Rightarrow> (r, a' # rest', tr @ tr', w'')))"

definition dispatch_scheduled ::
  "'w ActionRegistry \<Rightarrow> datetime \<Rightarrow> path \<Rightarrow> snapshot \<Rightarrow> 'w
     \<Rightarrow> py_error option \<times> 'w ActionRegistry \<times> effect list \<times> 'w" where
  "dispatch_scheduled reg now rootp snap w =
     (if scheduled_actions reg = [] then (None, reg, [], w)
      else
        (case dispatch_scheduled_loop (scheduled_actions reg) now rootp snap w of
           (r, actions', tr, w') \<Rightarrow> (r, reg\<lparr>scheduled_actions := actions'\<rparr>, tr, w')))"

definition prime_scheduled_snapshots ::
  "'w ActionRegistry \<Rightarrow> snapshot \<Rightarrow> 'w ActionRegistry" where
  "prime_scheduled_snapshots reg snap =
     reg\<lparr>scheduled_actions :=
           map (\<lambda>a. if act_previous_snapshot a = None
                    then a\<lparr>act_previous_snapshot := Some snap\<rparr> else a)
             (scheduled_actions reg)\<rparr>"

text \<open>
  A time-triggered action as the registry keeps it: a trigger that
  \<^verbatim>\<open>_parse_action_trigger\<close> can build, of a type other than \<open>EVENT\<close>, and a due time
  that is a \<^verbatim>\<open>datetime\<close>.
\<close>

definition scheduled_ok :: "'w Action \<Rightarrow> bool" where
  "scheduled_ok a \<longleftrightarrow>
     valid_trigger (act_trigger a) \<and> trigger_type (act_trigger a) \<noteq> EVENT \<and>
     (case act_next_run_at a of None \<Rightarrow> True | Some d \<Rightarrow> valid_datetime d)"

text \<open>An action is due at \<open>now\<close> when its due time is set and has been reached.\<close>

definition is_due :: "datetime \<Rightarrow> 'w Action \<Rightarrow> bool" where
  "is_due now a \<longleftrightarrow> (case act_next_run_at a of None \<Rightarrow> False | Some d \<Rightarrow> dt_le d now)"

text \<open>A callback that raises nothing but instances of \<^verbatim>\<open>Exception\<close>.\<close>

definition raises_only_Exception :: "'w Action \<Rightarrow> bool" where
  "raises_only_Exception a \<longleftrightarrow>
     (\<forall>context w msg. fst (act_callback a context (act_options a) w) \<noteq> Raised_BaseException msg)"

text \<open>
  What a dispatch at \<open>now\<close> with the snapshot \<open>snap\<close> makes of the action \<open>a\<close> when it
  returns: the same action with a due time after \<open>now\<close>, and, if \<open>a\<close> was due, the
  snapshot as its baseline and the due time computed from \<open>now\<close> plus one second.
\<close>

definition rescheduled :: "datetime \<Rightarrow> snapshot \<Rightarrow> 'w Action \<Rightarrow> 'w Action \<Rightarrow> bool" where
  "rescheduled now snap a a' \<longleftrightarrow>
     act_name a' = act_name a \<and> act_callback a' = act_callback a \<and>
     act_options a' = act_options a \<and> act_trigger a' = act_trigger a \<and>
     scheduled_ok a' \<and>
     (\<exists>d'. act_next_run_at a' = Some d' \<and> dt_less now d') \<and>
     (if is_due now a
      then act_previous_snapshot a' = Some snap \<and>
           (\<exists>ref. dt_add now (mk_timedelta 0 0 0 1) = Inr ref \<and>
                  compute_next_run (act_trigger a) ref = Inr (act_next_run_at a'))
      else act_previous_snapshot a' = act_previous_snapshot a)"

text \<open>The context of an event dispatch.\<close>

definition event_context :: "path \<Rightarrow> snapshot \<Rightarrow> FileEvent \<Rightarrow> ActionContext" where
  "event_context rootp snap ev =
     \<lparr>ctx_root_path = rootp, ctx_snapshot = snap, ctx_event = Some ev,
      ctx_modified_events = []\<rparr>"

section \<open>The snapshot scanner (monitor.py)\<close>

text \<open>
  \<^verbatim>\<open>Path.name\<close> on a POSIX path: what follows the last slash of the path string.
\<close>

definition path_name :: "path \<Rightarrow> string" where
  "path_name p = rev (takeWhile (\<lambda>c. c \<noteq> CHR ''/'') (rev p))"

text \<open>
  \<^verbatim>\<open>_matches_patterns\<close>. The library function \<^verbatim>\<open>fnmatch.fnmatch(name, pattern)\<close> is
  the parameter \<open>fnmatch\<close>. The local \<^verbatim>\<open>relative\<close> is the bare file name and the local
  \<^verbatim>\<open>rel_from_root\<close> is \<^verbatim>\<open>str(path)\<close>, the whole path string as the scanner got
  it from \<^verbatim>\<open>root.rglob\<close>: it starts with the root.
\<close>

definition matches_patterns ::
  "(string \<Rightarrow> string \<Rightarrow> bool) \<Rightarrow> path \<Rightarrow> string list \<Rightarrow> string list \<Rightarrow> bool" where
  "matches_patterns fnmatch p include_patterns exclude_patterns =
     (let relative = path_name p;
          rel_from_root = p
      in if exclude_patterns \<noteq> [] \<and>
            list_ex (\<lambda>pat. fnmatch relative pat \<or> fnmatch rel_from_root pat) exclude_patterns
         then False
         else if include_patterns = [] then True
         else list_ex (\<lambda>pat. fnmatch relative pat \<or> fnmatch rel_from_root pat)
                include_patterns)"

text \<open>
  What \<^verbatim>\<open>_iter_paths\<close> yields, with what \<^verbatim>\<open>is_file\<close> and \<^verbatim>\<open>stat\<close> answer for
  it; no stat stands for \<^verbatim>\<open>FileNotFoundError\<close>.
\<close>

record fs_entry =
  entry_path :: path
  entry_is_file :: bool
  entry_stat :: "(real \<times> int) option"

fun scan_loop ::
  "(string \<Rightarrow> string \<Rightarrow> bool) \<Rightarrow> fs_entry list \<Rightarrow> string list \<Rightarrow> string list
     \<Rightarrow> snapshot \<Rightarrow> snapshot" where
  "scan_loop fnmatch [] include_patterns exclude_patterns results = results"
| "scan_loop fnmatch (e # es) include_patterns exclude_patterns results =
     (if \<not> entry_is_file e
      then scan_loop fnmatch es include_patterns exclude_patterns results
      else if \<not> matches_patterns fnmatch (entry_path e) include_patterns exclude_patterns
      then scan_loop fnmatch es include_patterns exclude_patterns results
      else (case entry_stat e of
              None \<Rightarrow> scan_loop fnmatch es include_patterns exclude_patterns results
            | Some st \<Rightarrow>
                scan_loop fnmatch es include_patterns exclude_patterns
                  (AList.update (entry_path e) st results)))"

text \<open>\<^verbatim>\<open>DirectoryMonitor._scan\<close>; \<open>root_exists\<close> is \<^verbatim>\<open>root.exists()\<close>.\<close>

definition scan ::
  "(string \<Rightarrow> string \<Rightarrow> bool) \<Rightarrow> bool \<Rightarrow> fs_entry list \<Rightarrow> string list \<Rightarrow> string list
     \<Rightarrow> snapshot" where
  "scan fnmatch root_exists entries include_patterns exclude_patterns =
     (if \<not> root_exists then []
      else scan_loop fnmatch entries include_patterns exclude_patterns [])"

text \<open>
  The filter as the specification words it: the path is matched relative to the root.
  \<open>relative_to rootp p\<close> is \<^verbatim>\<open>str(p.relative_to(rootp))\<close> for a path below the root.
\<close>

definition relative_to :: "path \<Rightarrow> path \<Rightarrow> path" where
  "relative_to rootp p =
     (if take (length rootp + 1) p = rootp @ ''/'' then drop (length rootp + 1) p else p)"

definition matches_patterns_spec ::
  "(string \<Rightarrow> string \<Rightarrow> bool) \<Rightarrow> path \<Rightarrow> path \<Rightarrow> string list \<Rightarrow> string list \<Rightarrow> bool" where
  "matches_patterns_spec fnmatch rootp p include_patterns exclude_patterns =
     (if list_ex (\<lambda>pat. fnmatch (relative_to rootp p) pat \<or> fnmatch (path_name p) pat)
           exclude_patterns
      then False
      else if include_patterns = [] then True
      else list_ex (\<lambda>pat. fnmatch (relative_to rootp p) pat \<or> fnmatch (path_name p) pat)
             include_patterns)"

text \<open>
  \<^verbatim>\<open>fnmatch.fnmatch\<close> on a POSIX system for patterns without bracket expressions:
  \<^verbatim>\<open>*\<close> matches any string (slashes too), \<^verbatim>\<open>?\<close> any one character, every other
  character itself.
\<close>

fun glob_match :: "string \<Rightarrow> string \<Rightarrow> bool" where
  "glob_match [] [] = True"
| "glob_match (x # s) [] = False"
| "glob_match [] (c # pat) = (c = CHR ''*'' \<and> glob_match [] pat)"
| "glob_match (x # s) (c # pat) =
     (if c = CHR ''*'' then glob_match (x # s) pat \<or> glob_match s (c # pat)
      else (c = CHR ''?'' \<or> c = x) \<and> glob_match s pat)"

section \<open>Example inputs\<close>

text \<open>
  Three callbacks on a world that counts the calls: one returns, one raises an
  \<^verbatim>\<open>Exception\<close>, one raises \<^verbatim>\<open>SystemExit\<close>; two registries built from them;
  an instant, a snapshot and a change record.
\<close>

definition counting_callback :: "nat ActionCallback" where
  "counting_callback context opts w = (Returned, Suc w)"

definition failing_callback :: "nat ActionCallback" where
  "failing_callback context opts w = (Raised_Exception ''ValueError'', Suc w)"

definition exiting_callback :: "nat ActionCallback" where
  "exiting_callback context opts w = (Raised_BaseException ''SystemExit'', Suc w)"

definition example_now :: datetime where
  "example_now = \<lparr>year = 2024, month = 5, day = 17, hour = 10, minute = 45, second = 0,
                   microsecond = 0\<rparr>"

definition example_due :: datetime where
  "example_due = \<lparr>year = 2024, month = 5, day = 17, hour = 10, minute = 30, second = 0,
                   microsecond = 0\<rparr>"

definition example_snapshot :: snapshot where
  "example_snapshot = [(''/data/a.txt'', (100, 20)), (''/data/b.txt'', (105, 5))]"

definition example_event :: FileEvent where
  "example_event = \<lparr>event_type = CREATED, path = ''/data/b.txt'', previous_path = None,
                     size_val = Some 5, mtime = Some 105\<rparr>"

definition event_trigger :: ActionTriggerConfig where
  "event_trigger = \<lparr>trigger_type = EVENT, trigger_time = None, trigger_weekday = None,
                     trigger_day = None, trigger_minute = None\<rparr>"

definition hourly_trigger :: ActionTriggerConfig where
  "hourly_trigger = \<lparr>trigger_type = HOURLY, trigger_time = None, trigger_weekday = None,
                      trigger_day = None, trigger_minute = Some 30\<rparr>"

definition daily_trigger :: ActionTriggerConfig where
  "daily_trigger = \<lparr>trigger_type = DAILY,
                     trigger_time = Some \<lparr>t_hour = 9, t_minute = 0, t_second = 0\<rparr>,
                     trigger_weekday = None, trigger_day = None, trigger_minute = None\<rparr>"

definition example_registry :: "nat ActionRegistry" where
  "example_registry =
     \<lparr>event_actions =
        [\<lparr>act_name = ''fail_on_event'', act_callback = failing_callback, act_options = [],
          act_trigger = event_trigger, act_next_run_at = None,
          act_previous_snapshot = None\<rparr>,
         \<lparr>act_name = ''count_on_event'', act_callback = counting_callback, act_options = [],
          act_trigger = event_trigger, act_next_run_at = None,
          act_previous_snapshot = None\<rparr>],
      scheduled_actions =
        [\<lparr>act_name = ''fail_hourly'', act_callback = failing_callback, act_options = [],
          act_trigger = hourly_trigger, act_next_run_at = Some example_due,
          act_previous_snapshot = Some [(''/data/a.txt'', (100, 10))]\<rparr>,
         \<lparr>act_name = ''count_daily'', act_callback = counting_callback, act_options = [],
          act_trigger = daily_trigger, act_next_run_at = Some example_due,
          act_previous_snapshot = None\<rparr>]\<rparr>"

definition exiting_registry :: "nat ActionRegistry" where
  "exiting_registry =
     \<lparr>event_actions =
        [\<lparr>act_name = ''exit_on_event'', act_callback = exiting_callback, act_options = [],
          act_trigger = event_trigger, act_next_run_at = None,
          act_previous_snapshot = None\<rparr>,
         \<lparr>act_name = ''count_on_event'', act_callback = counting_callback, act_options = [],
          act_trigger = event_trigger, act_next_run_at = None,
          act_previous_snapshot = None\<rparr>],
      scheduled_actions = []\<rparr>"

section \<open>Facts about the calendar\<close>

lemma div_pred:
  fixes y k :: int
  assumes "0 < k"
  shows "(y - 1) div k = y div k - (if y mod k = 0 then 1 else 0)"
proof (cases "y mod k = 0")
  case True
  have "y = k * (y div k) + y mod k" by simp
  with True have "y - 1 = k * (y div k - 1) + (k - 1)" by (simp add: algebra_simps)
  moreover have "0 \<le> k - 1" "k - 1 < k" using assms by simp_all
  ultimately have "(y - 1) div k = y div k - 1" by (rule int_div_pos_eq)
  with True show ?thesis by simp
next
  case False
  have "0 \<le> y mod k" "y mod k < k" using assms by simp_all
  with False have r: "0 \<le> y mod k - 1" "y mod k - 1 < k" by simp_all
  have "y - 1 = k * (y div k) + (y mod k - 1)" by simp
  from this r have "(y - 1) div k = y div k" by (rule int_div_pos_eq)
  with False show ?thesis by simp
qed

lemma leap_mods:
  fixes y :: int
  shows "y mod 400 = 0 \<Longrightarrow> y mod 100 = 0" and "y mod 100 = 0 \<Longrightarrow> y mod 4 = 0"
proof -
  have a: "(100::int) dvd 400" and b: "(4::int) dvd 100" by simp_all
  show "y mod 400 = 0 \<Longrightarrow> y mod 100 = 0"
    using a by (meson dvd_trans mod_eq_0_iff_dvd)
  show "y mod 100 = 0 \<Longrightarrow> y mod 4 = 0"
    using b by (meson dvd_trans mod_eq_0_iff_dvd)
qed

lemma days_before_year_Suc:
  "days_before_year (y + 1) = days_before_year y + 365 + (if is_leap y then 1 else 0)"
proof -
  have d4: "(y - 1) div 4 = y div 4 - (if y mod 4 = 0 then 1 else 0)"
    by (rule div_pred) simp
  have d100: "(y - 1) div 100 = y div 100 - (if y mod 100 = 0 then 1 else 0)"
    by (rule div_pred) simp
  have d400: "(y - 1) div 400 = y div 400 - (if y mod 400 = 0 then 1 else 0)"
    by (rule div_pred) simp
  show ?thesis
    using leap_mods[of y]
    by (simp add: days_before_year_def is_leap_def Let_def d4 d100 d400)
qed

lemma month_cases:
  "1 \<le> m \<Longrightarrow> m \<le> (12::int) \<Longrightarrow>
   m = 1 \<or> m = 2 \<or> m = 3 \<or> m = 4 \<or> m = 5 \<or> m = 6 \<or> m = 7 \<or> m = 8 \<or> m = 9 \<or> m = 10 \<or> m = 11 \<or> m = 12"
  by arith

lemma days_before_month_Suc:
  "1 \<le> m \<Longrightarrow> m < 12 \<Longrightarrow> days_before_month y (m + 1) = days_before_month y m + days_in_month y m"
  using month_cases[of m]
  by (auto simp: days_before_month_def days_before_month_tab_def days_in_month_def mdays_def)

lemma days_before_month_12:
  "days_before_month y 12 + days_in_month y 12 = 365 + (if is_leap y then 1 else 0)"
  by (simp add: days_before_month_def days_before_month_tab_def days_in_month_def mdays_def)

lemma ymd2ord_date_succ:
  assumes "cal_date ymd"
  shows "ymd2ord (date_succ ymd) = ymd2ord ymd + 1"
proof -
  obtain y m d where ymd: "ymd = (y, m, d)" by (cases ymd) auto
  from assms ymd have m: "1 \<le> m" "m \<le> 12" and d: "1 \<le> d" "d \<le> days_in_month y m"
    by (simp_all add: cal_date_def)
  show ?thesis
  proof (cases "d < days_in_month y m")
    case True
    then show ?thesis by (simp add: ymd date_succ_def ymd2ord_def)
  next
    case False
    with d have deq: "d = days_in_month y m" by simp
    show ?thesis
    proof (cases "m < 12")
      case True
      with m deq show ?thesis
        by (simp add: ymd date_succ_def ymd2ord_def days_before_month_Suc)
    next
      case False
      with m have "m = 12" by simp
      with deq days_before_month_12[of y] show ?thesis
        by (simp add: ymd date_succ_def ymd2ord_def days_before_year_Suc
            days_before_month_def days_before_month_tab_def)
    qed
  qed
qed

lemma cal_date_date_succ: "cal_date ymd \<Longrightarrow> cal_date (date_succ ymd)"
  by (cases ymd) (auto simp: cal_date_def date_succ_def days_in_month_def mdays_def)

lemma date_succ_greater: "ymd < date_succ ymd"
  by (cases ymd) (auto simp: date_succ_def)

lemma cal_date_date_pred: "cal_date ymd \<Longrightarrow> cal_date (date_pred ymd)"
proof -
  assume a: "cal_date ymd"
  obtain y m d where ymd: "ymd = (y, m, d)" by (cases ymd) auto
  from a ymd have m: "1 \<le> m" "m \<le> 12" by (simp_all add: cal_date_def)
  have dim: "1 \<le> days_in_month y (m - 1)"
    by (simp add: days_in_month_def mdays_def)
  have "1 \<le> days_in_month (y - 1) 12" "(31::int) \<le> days_in_month (y - 1) 12"
    by (simp_all add: days_in_month_def mdays_def)
  with a ymd m dim show ?thesis
    by (simp add: cal_date_def date_pred_def)
qed

lemma ymd2ord_date_pred:
  assumes "cal_date ymd"
  shows "ymd2ord (date_pred ymd) = ymd2ord ymd - 1"
proof -
  obtain y m d where ymd: "ymd = (y, m, d)" by (cases ymd) auto
  from assms ymd have m: "1 \<le> m" "m \<le> 12" and d: "1 \<le> d" "d \<le> days_in_month y m"
    by (simp_all add: cal_date_def)
  show ?thesis
  proof (cases "1 < d")
    case True
    then show ?thesis by (simp add: ymd date_pred_def ymd2ord_def)
  next
    case False
    with d have d1: "d = 1" by simp
    show ?thesis
    proof (cases "1 < m")
      case True
      with m have "1 \<le> m - 1" "m - 1 < 12" by simp_all
      then have "days_before_month y (m - 1 + 1) = days_before_month y (m - 1) + days_in_month y (m - 1)"
        by (rule days_before_month_Suc)
      with True d1 show ?thesis
        by (simp add: ymd date_pred_def ymd2ord_def)
    next
      case False
      with m have m1: "m = 1" by simp
      have "days_before_year (y - 1 + 1) = days_before_year (y - 1) + 365 + (if is_leap (y - 1) then 1 else 0)"
        by (rule days_before_year_Suc)
      with m1 d1 show ?thesis
        by (simp add: ymd date_pred_def ymd2ord_def days_before_month_def days_before_month_tab_def)
    qed
  qed
qed

lemma date_steps_succ:
  "cal_date ymd \<Longrightarrow>
   cal_date (date_steps date_succ n ymd) \<and>
   ymd2ord (date_steps date_succ n ymd) = ymd2ord ymd + int n"
proof (induction n arbitrary: ymd)
  case 0
  then show ?case by simp
next
  case (Suc n)
  from Suc.prems have "cal_date (date_succ ymd)" by (rule cal_date_date_succ)
  from Suc.IH[OF this] ymd2ord_date_succ[OF Suc.prems] show ?case by simp
qed

lemma date_steps_pred:
  "cal_date ymd \<Longrightarrow>
   cal_date (date_steps date_pred n ymd) \<and>
   ymd2ord (date_steps date_pred n ymd) = ymd2ord ymd - int n"
proof (induction n arbitrary: ymd)
  case 0
  then show ?case by simp
next
  case (Suc n)
  from Suc.prems have "cal_date (date_pred ymd)" by (rule cal_date_date_pred)
  from Suc.IH[OF this] ymd2ord_date_pred[OF Suc.prems] show ?case by simp
qed

lemma ymd2ord_date_shift:
  "cal_date ymd \<Longrightarrow> ymd2ord (date_shift ymd n) = ymd2ord ymd + n"
  using date_steps_succ[of ymd "nat n"] date_steps_pred[of ymd "nat (- n)"]
  by (simp add: date_shift_def)

lemma cal_date_date_shift: "cal_date ymd \<Longrightarrow> cal_date (date_shift ymd n)"
  using date_steps_succ[of ymd "nat n"] date_steps_pred[of ymd "nat (- n)"]
  by (simp add: date_shift_def)

lemma date_steps_succ_ge: "ymd \<le> date_steps date_succ n ymd"
proof (induction n arbitrary: ymd)
  case 0
  then show ?case by simp
next
  case (Suc n)
  have "ymd < date_succ ymd" by (rule date_succ_greater)
  also have "date_succ ymd \<le> date_steps date_succ n (date_succ ymd)" by (rule Suc.IH)
  finally show ?case by simp
qed

lemma date_shift_greater: "0 < n \<Longrightarrow> ymd < date_shift ymd n"
proof -
  assume "0 < n"
  then obtain k where k: "nat n = Suc k" by (cases "nat n") auto
  have "ymd < date_succ ymd" by (rule date_succ_greater)
  also have "date_succ ymd \<le> date_steps date_succ k (date_succ ymd)"
    by (rule date_steps_succ_ge)
  finally show ?thesis using \<open>0 < n\<close> k by (simp add: date_shift_def)
qed

lemma date_shift_0: "date_shift ymd 0 = ymd"
  by (simp add: date_shift_def)

lemma ymd2ord_bounds:
  assumes "cal_date (y, m, d)"
  shows "days_before_year y < ymd2ord (y, m, d)"
    and "ymd2ord (y, m, d) \<le> days_before_year (y + 1)"
    and "m < 12 \<Longrightarrow> ymd2ord (y, m, d) + 31 \<le> days_before_year (y + 1)"
proof -
  from assms have m: "1 \<le> m" "m \<le> 12" and d: "1 \<le> d" "d \<le> days_in_month y m"
    by (simp_all add: cal_date_def)
  have nonneg: "0 \<le> days_before_month y m"
    by (simp add: days_before_month_def days_before_month_tab_def)
  with d show "days_before_year y < ymd2ord (y, m, d)"
    by (simp add: ymd2ord_def)
  have up: "days_before_month y m + days_in_month y m \<le> 365 + (if is_leap y then 1 else 0)"
    using month_cases[OF m]
    by (auto simp: days_before_month_def days_before_month_tab_def days_in_month_def mdays_def)
  with d show "ymd2ord (y, m, d) \<le> days_before_year (y + 1)"
    by (simp add: ymd2ord_def days_before_year_Suc)
  show "ymd2ord (y, m, d) + 31 \<le> days_before_year (y + 1)" if "m < 12"
  proof -
    have "days_before_month y m + days_in_month y m + 31 \<le> 365 + (if is_leap y then 1 else 0)"
      using month_cases[OF m] that
      by (auto simp: days_before_month_def days_before_month_tab_def days_in_month_def mdays_def)
    with d show ?thesis
      by (simp add: ymd2ord_def days_before_year_Suc)
  qed
qed

lemma days_before_year_mono_nat: "days_before_year y \<le> days_before_year (y + int n)"
proof (induction n)
  case 0
  then show ?case by simp
next
  case (Suc n)
  have e: "y + int (Suc n) = y + int n + 1" by simp
  have s: "days_before_year (y + int n) \<le> days_before_year (y + int n + 1)"
    by (simp only: days_before_year_Suc split: if_split) simp
  from Suc s have "days_before_year y \<le> days_before_year (y + int n + 1)"
    by (rule order_trans)
  then show ?case by (simp only: e)
qed

lemma days_before_year_mono: "y \<le> y' \<Longrightarrow> days_before_year y \<le> days_before_year y'"
  using days_before_year_mono_nat[of y "nat (y' - y)"] by simp

text \<open>A shift by at most 31 days from a date before December stays in the year.\<close>

lemma date_shift_year_same:
  assumes "cal_date (y, m, d)" "m < 12" "0 \<le> n" "n \<le> 31"
    and "date_shift (y, m, d) n = (y', m', d')"
  shows "y' = y"
proof -
  have c': "cal_date (y', m', d')"
    using cal_date_date_shift[OF assms(1), of n] assms(5) by simp
  have o: "ymd2ord (y', m', d') = ymd2ord (y, m, d) + n"
    using ymd2ord_date_shift[OF assms(1), of n] assms(5) by simp
  have ge: "y \<le> y'"
  proof (cases "n = 0")
    case True
    with assms(5) show ?thesis by (simp add: date_shift_0)
  next
    case False
    with assms(3) have "(y, m, d) < date_shift (y, m, d) n" by (intro date_shift_greater) simp
    with assms(5) show ?thesis by (auto simp: less_prod_def)
  qed
  have "y' \<le> y"
  proof (rule ccontr)
    assume "\<not> y' \<le> y"
    then have "y + 1 \<le> y'" by simp
    then have "days_before_year (y + 1) \<le> days_before_year y'" by (rule days_before_year_mono)
    moreover have "days_before_year y' < ymd2ord (y', m', d')" using c' by (rule ymd2ord_bounds)
    moreover have "ymd2ord (y, m, d) + 31 \<le> days_before_year (y + 1)"
      using assms(1,2) by (rule ymd2ord_bounds)
    ultimately show False using o assms(4) by simp
  qed
  with ge show ?thesis by simp
qed

text \<open>A shift by at most 31 days moves at most into the next year.\<close>

lemma date_shift_year_next:
  assumes "cal_date (y, m, d)" "0 \<le> n" "n \<le> 31"
    and "date_shift (y, m, d) n = (y', m', d')"
  shows "y \<le> y' \<and> y' \<le> y + 1"
proof -
  have c': "cal_date (y', m', d')"
    using cal_date_date_shift[OF assms(1), of n] assms(4) by simp
  have o: "ymd2ord (y', m', d') = ymd2ord (y, m, d) + n"
    using ymd2ord_date_shift[OF assms(1), of n] assms(4) by simp
  have ge: "y \<le> y'"
  proof (cases "n = 0")
    case True
    with assms(4) show ?thesis by (simp add: date_shift_0)
  next
    case False
    with assms(2) have "(y, m, d) < date_shift (y, m, d) n" by (intro date_shift_greater) simp
    with assms(4) show ?thesis by (auto simp: less_prod_def)
  qed
  have "y' \<le> y + 1"
  proof (rule ccontr)
    assume "\<not> y' \<le> y + 1"
    then have "y + 1 + 1 \<le> y'" by simp
    then have "days_before_year (y + 1 + 1) \<le> days_before_year y'" by (rule days_before_year_mono)
    moreover have "days_before_year (y + 1 + 1) = days_before_year (y + 1) + 365 + (if is_leap (y + 1) then 1 else 0)"
      by (rule days_before_year_Suc)
    moreover have "days_before_year y' < ymd2ord (y', m', d')" using c' by (rule ymd2ord_bounds)
    moreover have "ymd2ord (y, m, d) \<le> days_before_year (y + 1)"
      using assms(1) by (rule ymd2ord_bounds)
    ultimately show False using o assms(3) by (simp split: if_splits)
  qed
  with ge show ?thesis by simp
qed

subsection \<open>Carrying seconds into days\<close>

lemma hms_decode:
  fixes c h m s :: int
  assumes "0 \<le> h" "h \<le> 23" "0 \<le> m" "m \<le> 59" "0 \<le> s" "s \<le> 59"
  shows "(c * 86400 + h * 3600 + m * 60 + s) div 86400 = c"
    and "(c * 86400 + h * 3600 + m * 60 + s) mod 86400 = h * 3600 + m * 60 + s"
    and "(h * 3600 + m * 60 + s) div 3600 = h"
    and "((h * 3600 + m * 60 + s) mod 3600) div 60 = m"
    and "(h * 3600 + m * 60 + s) mod 60 = s"
proof -
  have a: "c * 86400 + h * 3600 + m * 60 + s = 86400 * c + (h * 3600 + m * 60 + s)" by simp
  have r: "0 \<le> h * 3600 + m * 60 + s" "h * 3600 + m * 60 + s < 86400" using assms by simp_all
  from a r show "(c * 86400 + h * 3600 + m * 60 + s) div 86400 = c" by (rule int_div_pos_eq)
  from a r show "(c * 86400 + h * 3600 + m * 60 + s) mod 86400 = h * 3600 + m * 60 + s"
    by (rule int_mod_pos_eq)
  have b: "h * 3600 + m * 60 + s = 3600 * h + (m * 60 + s)" by simp
  have rb: "0 \<le> m * 60 + s" "m * 60 + s < 3600" using assms by simp_all
  from b rb show "(h * 3600 + m * 60 + s) div 3600 = h" by (rule int_div_pos_eq)
  from b rb have mod3600: "(h * 3600 + m * 60 + s) mod 3600 = m * 60 + s" by (rule int_mod_pos_eq)
  have c: "m * 60 + s = 60 * m + s" by simp
  have rc: "0 \<le> s" "s < 60" using assms by simp_all
  from c rc have "(m * 60 + s) div 60 = m" by (rule int_div_pos_eq)
  with mod3600 show "((h * 3600 + m * 60 + s) mod 3600) div 60 = m" by simp
  have d: "h * 3600 + m * 60 + s = 60 * (h * 60 + m) + s" by simp
  from d rc show "(h * 3600 + m * 60 + s) mod 60 = s" by (rule int_mod_pos_eq)
qed

lemma dt_add_eq:
  assumes us: "0 \<le> microsecond dt + td_microseconds td" "microsecond dt + td_microseconds td < 1000000"
    and secs: "hour dt * 3600 + minute dt * 60 + second dt + td_seconds td
               = c * 86400 + h * 3600 + m * 60 + s"
    and rng: "0 \<le> h" "h \<le> 23" "0 \<le> m" "m \<le> 59" "0 \<le> s" "s \<le> 59"
  shows "dt_add dt td =
    (case date_shift (year dt, month dt, day dt) (td_days td + c) of
       (y, mo, d) \<Rightarrow>
         if MINYEAR \<le> y \<and> y \<le> MAXYEAR
         then Inr \<lparr>year = y, month = mo, day = d, hour = h, minute = m, second = s,
                   microsecond = microsecond dt + td_microseconds td\<rparr>
         else Inl OverflowError)"
proof -
  have u0: "(microsecond dt + td_microseconds td) div 1000000 = 0"
    using us by (simp add: div_pos_pos_trivial)
  have u1: "(microsecond dt + td_microseconds td) mod 1000000 = microsecond dt + td_microseconds td"
    using us by (simp add: mod_pos_pos_trivial)
  note h = hms_decode(1,2)[OF rng, of c] hms_decode(3-5)[OF rng]
  show ?thesis
    unfolding dt_add_def Let_def u0 u1 add_0_right secs h ..
qed

section \<open>Facts about the trigger scheduler\<close>

lemma dt_add_shifted:
  assumes "0 \<le> microsecond dt + td_microseconds td" "microsecond dt + td_microseconds td < 1000000"
    and "hour dt * 3600 + minute dt * 60 + second dt + td_seconds td
               = c * 86400 + h * 3600 + m * 60 + s"
    and "0 \<le> h" "h \<le> 23" "0 \<le> m" "m \<le> 59" "0 \<le> s" "s \<le> 59"
  shows "dt_add dt td = shifted dt (td_days td + c) h m s (microsecond dt + td_microseconds td)"
  unfolding shifted_def using assms by (rule dt_add_eq)

lemma valid_datetimeD:
  assumes "valid_datetime dt"
  shows "1 \<le> year dt" "year dt \<le> 9999" "cal_date (year dt, month dt, day dt)"
    "1 \<le> month dt" "month dt \<le> 12" "1 \<le> day dt" "day dt \<le> days_in_month (year dt) (month dt)"
    "0 \<le> hour dt" "hour dt \<le> 23" "0 \<le> minute dt" "minute dt \<le> 59"
    "0 \<le> second dt" "second dt \<le> 59" "0 \<le> microsecond dt" "microsecond dt \<le> 999999"
  using assms
  by (simp_all add: valid_datetime_def valid_date_def cal_date_def valid_time_fields_def
      MINYEAR_def MAXYEAR_def)

lemma shifted_cases:
  assumes v: "valid_datetime dt" and k: "0 \<le> k" "k \<le> 31"
    and t: "valid_time_fields h m s us"
  shows "(\<exists>r. shifted dt k h m s us = Inr r \<and> valid_datetime r \<and>
               (year r, month r, day r) = date_shift (year dt, month dt, day dt) k \<and>
               hour r = h \<and> minute r = m \<and> second r = s \<and> microsecond r = us) \<or>
         (shifted dt k h m s us = Inl OverflowError \<and> year dt = 9999 \<and> month dt = 12)"
proof -
  obtain y' m' d' where sh: "date_shift (year dt, month dt, day dt) k = (y', m', d')"
    by (cases "date_shift (year dt, month dt, day dt) k") auto
  note d = valid_datetimeD[OF v]
  have c': "cal_date (y', m', d')"
    using cal_date_date_shift[OF d(3), of k] sh by simp
  have yr: "year dt \<le> y' \<and> y' \<le> year dt + 1"
    using d(3) k sh by (rule date_shift_year_next)
  show ?thesis
  proof (cases "y' \<le> 9999")
    case True
    with yr d(1) c' t have "valid_datetime \<lparr>year = y', month = m', day = d', hour = h,
        minute = m, second = s, microsecond = us\<rparr>"
      by (simp add: valid_datetime_def valid_date_def cal_date_def MINYEAR_def MAXYEAR_def)
    with True yr d(1) sh show ?thesis
      by (simp add: shifted_def MINYEAR_def MAXYEAR_def)
  next
    case False
    with yr d(2) have y9: "year dt = 9999" "y' \<noteq> year dt" by simp_all
    have "month dt = 12"
    proof (rule ccontr)
      assume "month dt \<noteq> 12"
      with d(5) have "month dt < 12" by simp
      with d(3) have "y' = year dt" using k sh by (rule date_shift_year_same)
      with y9 show False by simp
    qed
    with False y9 sh show ?thesis
      by (simp add: shifted_def MINYEAR_def MAXYEAR_def)
  qed
qed

lemma mk_timedelta_simps:
  "mk_timedelta 0 0 0 1 = \<lparr>td_days = 0, td_seconds = 1, td_microseconds = 0\<rparr>"
  "mk_timedelta 0 0 1 0 = \<lparr>td_days = 0, td_seconds = 60, td_microseconds = 0\<rparr>"
  "mk_timedelta 0 1 0 0 = \<lparr>td_days = 0, td_seconds = 3600, td_microseconds = 0\<rparr>"
  "mk_timedelta n 0 0 0 = \<lparr>td_days = n, td_seconds = 0, td_microseconds = 0\<rparr>"
  by (simp_all add: mk_timedelta_def)

text \<open>Adding whole days keeps the time of day.\<close>

lemma dt_add_days:
  assumes "valid_datetime dt"
  shows "dt_add dt (mk_timedelta n 0 0 0) =
         shifted dt n (hour dt) (minute dt) (second dt) (microsecond dt)"
proof -
  note d = valid_datetimeD[OF assms]
  have "dt_add dt (mk_timedelta n 0 0 0) =
        shifted dt (td_days (mk_timedelta n 0 0 0) + 0) (hour dt) (minute dt) (second dt)
          (microsecond dt + td_microseconds (mk_timedelta n 0 0 0))"
    using d by (intro dt_add_shifted) (simp_all add: mk_timedelta_simps)
  then show ?thesis by (simp add: mk_timedelta_simps)
qed

lemma dt_add_minute:
  assumes "valid_datetime dt"
  shows "dt_add dt (mk_timedelta 0 0 1 0) =
         (if minute dt < 59
          then shifted dt 0 (hour dt) (minute dt + 1) (second dt) (microsecond dt)
          else if hour dt < 23
          then shifted dt 0 (hour dt + 1) 0 (second dt) (microsecond dt)
          else shifted dt 1 0 0 (second dt) (microsecond dt))"
proof -
  note d = valid_datetimeD[OF assms]
  let ?td = "mk_timedelta 0 0 1 0"
  have *: "dt_add dt ?td = shifted dt c h m s (microsecond dt)"
    if "hour dt * 3600 + minute dt * 60 + second dt + 60 = c * 86400 + h * 3600 + m * 60 + s"
      "0 \<le> h" "h \<le> 23" "0 \<le> m" "m \<le> 59" "0 \<le> s" "s \<le> 59" for c h m s
  proof -
    have "dt_add dt ?td = shifted dt (td_days ?td + c) h m s (microsecond dt + td_microseconds ?td)"
      using d that by (intro dt_add_shifted) (simp_all add: mk_timedelta_simps)
    then show ?thesis by (simp add: mk_timedelta_simps)
  qed
  show ?thesis
  proof (cases "minute dt < 59")
    case True
    with d show ?thesis by (simp add: *[of 0 "hour dt" "minute dt + 1" "second dt"])
  next
    case False
    with d have m59: "minute dt = 59" by simp
    show ?thesis
    proof (cases "hour dt < 23")
      case True
      with d m59 show ?thesis by (simp add: *[of 0 "hour dt + 1" 0 "second dt"])
    next
      case False
      with d have "hour dt = 23" by simp
      with d m59 show ?thesis by (simp add: *[of 1 0 0 "second dt"])
    qed
  qed
qed

lemma dt_add_hour:
  assumes "valid_datetime dt"
  shows "dt_add dt (mk_timedelta 0 1 0 0) =
         (if hour dt < 23
          then shifted dt 0 (hour dt + 1) (minute dt) (second dt) (microsecond dt)
          else shifted dt 1 0 (minute dt) (second dt) (microsecond dt))"
proof -
  note d = valid_datetimeD[OF assms]
  let ?td = "mk_timedelta 0 1 0 0"
  have *: "dt_add dt ?td = shifted dt c h m s (microsecond dt)"
    if "hour dt * 3600 + minute dt * 60 + second dt + 3600 = c * 86400 + h * 3600 + m * 60 + s"
      "0 \<le> h" "h \<le> 23" "0 \<le> m" "m \<le> 59" "0 \<le> s" "s \<le> 59" for c h m s
  proof -
    have "dt_add dt ?td = shifted dt (td_days ?td + c) h m s (microsecond dt + td_microseconds ?td)"
      using d that by (intro dt_add_shifted) (simp_all add: mk_timedelta_simps)
    then show ?thesis by (simp add: mk_timedelta_simps)
  qed
  show ?thesis
  proof (cases "hour dt < 23")
    case True
    with d show ?thesis by (simp add: *[of 0 "hour dt + 1" "minute dt" "second dt"])
  next
    case False
    with d have "hour dt = 23" by simp
    with d show ?thesis by (simp add: *[of 1 0 "minute dt" "second dt"])
  qed
qed

lemma dt_add_second:
  assumes "valid_datetime dt"
  shows "dt_add dt (mk_timedelta 0 0 0 1) =
         (if second dt < 59
          then shifted dt 0 (hour dt) (minute dt) (second dt + 1) (microsecond dt)
          else if minute dt < 59
          then shifted dt 0 (hour dt) (minute dt + 1) 0 (microsecond dt)
          else if hour dt < 23
          then shifted dt 0 (hour dt + 1) 0 0 (microsecond dt)
          else shifted dt 1 0 0 0 (microsecond dt))"
proof -
  note d = valid_datetimeD[OF assms]
  let ?td = "mk_timedelta 0 0 0 1"
  have *: "dt_add dt ?td = shifted dt c h m s (microsecond dt)"
    if "hour dt * 3600 + minute dt * 60 + second dt + 1 = c * 86400 + h * 3600 + m * 60 + s"
      "0 \<le> h" "h \<le> 23" "0 \<le> m" "m \<le> 59" "0 \<le> s" "s \<le> 59" for c h m s
  proof -
    have "dt_add dt ?td = shifted dt (td_days ?td + c) h m s (microsecond dt + td_microseconds ?td)"
      using d that by (intro dt_add_shifted) (simp_all add: mk_timedelta_simps)
    then show ?thesis by (simp add: mk_timedelta_simps)
  qed
  show ?thesis
  proof (cases "second dt < 59")
    case True
    with d show ?thesis by (simp add: *[of 0 "hour dt" "minute dt" "second dt + 1"])
  next
    case False
    with d have s59: "second dt = 59" by simp
    show ?thesis
    proof (cases "minute dt < 59")
      case True
      with d s59 show ?thesis by (simp add: *[of 0 "hour dt" "minute dt + 1" 0])
    next
      case False
      with d have m59: "minute dt = 59" by simp
      show ?thesis
      proof (cases "hour dt < 23")
        case True
        with d s59 m59 show ?thesis by (simp add: *[of 0 "hour dt + 1" 0 0])
      next
        case False
        with d have "hour dt = 23" by simp
        with d s59 m59 show ?thesis by (simp add: *[of 1 0 0 0])
      qed
    qed
  qed
qed

lemma dt_not_le: "\<not> dt_le a b \<longleftrightarrow> dt_less b a"
  by (simp add: dt_le_def dt_less_def not_le)

lemma replace_time_Inr:
  assumes "valid_datetime r"
    and "valid_time_fields
           (case h of None \<Rightarrow> hour r | Some v \<Rightarrow> v)
           (case mi of None \<Rightarrow> minute r | Some v \<Rightarrow> v)
           (case s of None \<Rightarrow> second r | Some v \<Rightarrow> v)
           (case us of None \<Rightarrow> microsecond r | Some v \<Rightarrow> v)"
  shows "replace_time r h mi s us =
         Inr \<lparr>year = year r, month = month r, day = day r,
              hour = (case h of None \<Rightarrow> hour r | Some v \<Rightarrow> v),
              minute = (case mi of None \<Rightarrow> minute r | Some v \<Rightarrow> v),
              second = (case s of None \<Rightarrow> second r | Some v \<Rightarrow> v),
              microsecond = (case us of None \<Rightarrow> microsecond r | Some v \<Rightarrow> v)\<rparr>"
  using assms by (simp add: replace_time_def mk_datetime_def valid_datetime_def)

lemma replace_time_valid:
  assumes "valid_datetime r" and "valid_time_fields h mi s us"
  shows "valid_datetime \<lparr>year = year r, month = month r, day = day r,
              hour = h, minute = mi, second = s, microsecond = us\<rparr>"
  using assms by (simp add: valid_datetime_def)

lemma shifted_after:
  assumes v: "valid_datetime dt"
    and same: "year r = year dt" "month r = month dt" "day r = day dt"
    and k: "0 \<le> k" "k \<le> 31"
    and t: "valid_time_fields h m s us"
    and later: "0 < k \<or> (hour r, minute r, second r, microsecond r) < (h, m, s, us)"
  shows "(\<exists>d. shifted dt k h m s us = Inr d \<and> valid_datetime d \<and> dt_less r d \<and>
               (year d, month d, day d) = date_shift (year dt, month dt, day dt) k \<and>
               hour d = h \<and> minute d = m \<and> second d = s \<and> microsecond d = us) \<or>
         (shifted dt k h m s us = Inl OverflowError \<and> year r = 9999 \<and> month r = 12)"
proof -
  from shifted_cases[OF v k t] show ?thesis
  proof
    assume "\<exists>d. shifted dt k h m s us = Inr d \<and> valid_datetime d \<and>
               (year d, month d, day d) = date_shift (year dt, month dt, day dt) k \<and>
               hour d = h \<and> minute d = m \<and> second d = s \<and> microsecond d = us"
    then obtain d where d: "shifted dt k h m s us = Inr d" "valid_datetime d"
      "(year d, month d, day d) = date_shift (year dt, month dt, day dt) k"
      "hour d = h" "minute d = m" "second d = s" "microsecond d = us" by blast
    have "dt_less r d"
    proof (cases "0 < k")
      case True
      then have "(year dt, month dt, day dt) < date_shift (year dt, month dt, day dt) k"
        by (rule date_shift_greater)
      with d(3) same have "(year r, month r, day r) < (year d, month d, day d)" by simp
      then show ?thesis by (auto simp: dt_less_def dt_key_def)
    next
      case False
      with k have "k = 0" by simp
      with d(3) same have "year d = year r" "month d = month r" "day d = day r"
        by (simp_all add: date_shift_0)
      moreover from False later d
      have "(hour r, minute r, second r, microsecond r) <
            (hour d, minute d, second d, microsecond d)" by simp
      ultimately show ?thesis by (auto simp: dt_less_def dt_key_def)
    qed
    with d show ?thesis by blast
  next
    assume "shifted dt k h m s us = Inl OverflowError \<and> year dt = 9999 \<and> month dt = 12"
    with same show ?thesis by simp
  qed
qed

lemma shifted_0_self:
  assumes "valid_datetime dt"
  shows "shifted dt 0 (hour dt) (minute dt) (second dt) (microsecond dt) = Inr dt"
  using valid_datetimeD(1,2)[OF assms]
  by (simp add: shifted_def date_shift_0 MINYEAR_def MAXYEAR_def)

lemma shifted_after_or_overflow:
  assumes "valid_datetime dt"
    and "year r = year dt" "month r = month dt" "day r = day dt"
    and "0 \<le> k" "k \<le> 31"
    and "valid_time_fields h m s us"
    and "0 < k \<or> (hour r, minute r, second r, microsecond r) < (h, m, s, us)"
  shows "after_or_overflow r (shifted dt k h m s us)"
  using shifted_after[OF assms] unfolding after_or_overflow_def by blast

lemma add_minute_after:
  assumes v: "valid_datetime b"
    and same: "year r = year b" "month r = month b" "day r = day b"
      "hour r = hour b" "minute r = minute b"
  shows "after_or_overflow r (dt_add b (mk_timedelta 0 0 1 0))"
proof -
  note d = valid_datetimeD[OF v]
  have t1: "valid_time_fields (hour b) (minute b + 1) (second b) (microsecond b)"
    if "minute b < 59"
    using d that by (simp add: valid_time_fields_def)
  have t2: "valid_time_fields (hour b + 1) 0 (second b) (microsecond b)" if "hour b < 23"
    using d that by (simp add: valid_time_fields_def)
  have t3: "valid_time_fields 0 0 (second b) (microsecond b)"
    using d by (simp add: valid_time_fields_def)
  show ?thesis
  proof (cases "minute b < 59")
    case True
    have "after_or_overflow r (shifted b 0 (hour b) (minute b + 1) (second b) (microsecond b))"
      using v same(1-3) _ _ t1[OF True]
      by (rule shifted_after_or_overflow) (simp_all add: same)
    with True show ?thesis by (simp add: dt_add_minute[OF v])
  next
    case False
    show ?thesis
    proof (cases "hour b < 23")
      case True
      have "after_or_overflow r (shifted b 0 (hour b + 1) 0 (second b) (microsecond b))"
        using v same(1-3) _ _ t2[OF True]
        by (rule shifted_after_or_overflow) (simp_all add: same)
      with True False show ?thesis by (simp add: dt_add_minute[OF v])
    next
      case h: False
      have "after_or_overflow r (shifted b 1 0 0 (second b) (microsecond b))"
        using v same(1-3) _ _ t3
        by (rule shifted_after_or_overflow) simp_all
      with False h show ?thesis by (simp add: dt_add_minute[OF v])
    qed
  qed
qed

lemma add_hour_after:
  assumes v: "valid_datetime b"
    and same: "year r = year b" "month r = month b" "day r = day b" "hour r = hour b"
  shows "after_or_overflow r (dt_add b (mk_timedelta 0 1 0 0))"
proof -
  note d = valid_datetimeD[OF v]
  have t2: "valid_time_fields (hour b + 1) (minute b) (second b) (microsecond b)"
    if "hour b < 23"
    using d that by (simp add: valid_time_fields_def)
  have t3: "valid_time_fields 0 (minute b) (second b) (microsecond b)"
    using d by (simp add: valid_time_fields_def)
  show ?thesis
  proof (cases "hour b < 23")
    case True
    have "after_or_overflow r (shifted b 0 (hour b + 1) (minute b) (second b) (microsecond b))"
      using v same(1-3) _ _ t2[OF True]
      by (rule shifted_after_or_overflow) (simp_all add: same)
    with True show ?thesis by (simp add: dt_add_hour[OF v])
  next
    case False
    have "after_or_overflow r (shifted b 1 0 (minute b) (second b) (microsecond b))"
      using v same(1-3) _ _ t3
      by (rule shifted_after_or_overflow) simp_all
    with False show ?thesis by (simp add: dt_add_hour[OF v])
  qed
qed

lemma add_days_after:
  assumes v: "valid_datetime b"
    and same: "year r = year b" "month r = month b" "day r = day b"
    and n: "0 < n" "n \<le> 31"
  shows "after_or_overflow r (dt_add b (mk_timedelta n 0 0 0))"
proof -
  note d = valid_datetimeD[OF v]
  have t: "valid_time_fields (hour b) (minute b) (second b) (microsecond b)"
    using d by (simp add: valid_time_fields_def)
  have "after_or_overflow r (shifted b n (hour b) (minute b) (second b) (microsecond b))"
    using v same _ _ t
    by (rule shifted_after_or_overflow) (use n in simp_all)
  then show ?thesis by (simp add: dt_add_days[OF v])
qed

lemma add_second_after:
  assumes v: "valid_datetime b"
  shows "after_or_overflow b (dt_add b (mk_timedelta 0 0 0 1))"
proof -
  note d = valid_datetimeD[OF v]
  have *: "after_or_overflow b (shifted b k h m s (microsecond b))"
    if "0 \<le> k" "k \<le> 31" "valid_time_fields h m s (microsecond b)"
       "0 < k \<or> (hour b, minute b, second b, microsecond b) < (h, m, s, microsecond b)"
    for k h m s
    using v refl refl refl that by (rule shifted_after_or_overflow)
  show ?thesis
    unfolding dt_add_second[OF v]
    using d by (auto intro!: * simp: valid_time_fields_def)
qed

lemma clamped_month_datetime_eq:
  assumes "1 \<le> m" "m \<le> 12" "1 \<le> d" "valid_dt_time tod"
  shows "clamped_month_datetime y m d tod =
         (if 1 \<le> y \<and> y \<le> 9999
          then Inr \<lparr>year = y, month = m, day = min d (days_in_month y m),
                    hour = t_hour tod, minute = t_minute tod, second = t_second tod,
                    microsecond = 0\<rparr>
          else Inl ValueError)"
proof -
  have mr: "monthrange y m = Inr (days_in_month y m)"
    using assms(1,2) by (simp add: monthrange_def days_in_month_def mdays_def)
  have "1 \<le> days_in_month y m"
    by (simp add: days_in_month_def mdays_def)
  with assms(3) have md: "1 \<le> min d (days_in_month y m)" "min d (days_in_month y m) \<le> days_in_month y m"
    by simp_all
  with assms show ?thesis
    by (simp add: clamped_month_datetime_def mr mk_datetime_def valid_date_def
        valid_dt_time_def MINYEAR_def MAXYEAR_def)
qed

lemma next_run_after_lift:
  "after_or_overflow r x \<Longrightarrow>
   next_run_after r (case x of Inl e \<Rightarrow> Inl e | Inr b \<Rightarrow> Inr (Some b))"
  by (auto simp: after_or_overflow_def next_run_after_def)

lemma next_run_after_base:
  "valid_datetime b \<Longrightarrow> \<not> dt_le b r \<Longrightarrow> next_run_after r (Inr (Some b))"
  by (simp add: next_run_after_def dt_not_le)

lemma valid_trigger_second:
  assumes "valid_trigger t"
  shows "0 \<le> (case trigger_time t of Some tm \<Rightarrow> t_second tm | None \<Rightarrow> 0)"
    and "(case trigger_time t of Some tm \<Rightarrow> t_second tm | None \<Rightarrow> 0) \<le> 59"
  using assms
  by (auto simp: valid_trigger_def valid_dt_time_def valid_time_fields_def split: option.splits)

lemma valid_trigger_minute:
  assumes "valid_trigger t"
  shows "0 \<le> (case trigger_minute t of Some v \<Rightarrow> v | None \<Rightarrow> 0)"
    and "(case trigger_minute t of Some v \<Rightarrow> v | None \<Rightarrow> 0) \<le> 59"
  using assms by (auto simp: valid_trigger_def split: option.splits)

lemma valid_trigger_time:
  assumes "valid_trigger t"
  shows "valid_dt_time (case trigger_time t of Some tm \<Rightarrow> tm | None \<Rightarrow> DEFAULT_TIME)"
  using assms
  by (auto simp: valid_trigger_def valid_dt_time_def valid_time_fields_def DEFAULT_TIME_def
      split: option.splits)

lemma next_run_minutely:
  assumes v: "valid_datetime r" and vt: "valid_trigger t" and ty: "trigger_type t = MINUTELY"
  shows "next_run_after r (compute_next_run t r)"
proof -
  define sec where "sec = (case trigger_time t of Some tm \<Rightarrow> t_second tm | None \<Rightarrow> 0)"
  define base where "base = \<lparr>year = year r, month = month r, day = day r, hour = hour r,
    minute = minute r, second = sec, microsecond = 0\<rparr>"
  note d = valid_datetimeD[OF v]
  have tf: "valid_time_fields (hour r) (minute r) sec 0"
    using d valid_trigger_second[OF vt] by (simp add: valid_time_fields_def sec_def)
  have rep: "replace_time r None None (Some sec) (Some 0) = Inr base"
    using v tf by (simp add: replace_time_Inr base_def)
  have vb: "valid_datetime base"
    unfolding base_def using v tf by (rule replace_time_valid)
  have eq: "compute_next_run t r =
            (if dt_le base r
             then (case dt_add base (mk_timedelta 0 0 1 0) of
                     Inl e \<Rightarrow> Inl e | Inr b \<Rightarrow> Inr (Some b))
             else Inr (Some base))"
    using rep by (simp add: compute_next_run_def ty Let_def sec_def)
  show ?thesis
  proof (cases "dt_le base r")
    case True
    have "after_or_overflow r (dt_add base (mk_timedelta 0 0 1 0))"
      using vb by (rule add_minute_after) (simp_all add: base_def)
    then show ?thesis unfolding eq using True by (simp add: next_run_after_lift)
  next
    case False
    with vb show ?thesis unfolding eq by (simp add: next_run_after_base)
  qed
qed

lemma next_run_hourly:
  assumes v: "valid_datetime r" and vt: "valid_trigger t" and ty: "trigger_type t = HOURLY"
  shows "next_run_after r (compute_next_run t r)"
proof -
  define sec where "sec = (case trigger_time t of Some tm \<Rightarrow> t_second tm | None \<Rightarrow> 0)"
  define mi where "mi = (case trigger_minute t of Some v \<Rightarrow> v | None \<Rightarrow> 0)"
  define base where "base = \<lparr>year = year r, month = month r, day = day r, hour = hour r,
    minute = mi, second = sec, microsecond = 0\<rparr>"
  note d = valid_datetimeD[OF v]
  have tf: "valid_time_fields (hour r) mi sec 0"
    using d valid_trigger_second[OF vt] valid_trigger_minute[OF vt]
    by (simp add: valid_time_fields_def sec_def mi_def)
  have rep: "replace_time r None (Some mi) (Some sec) (Some 0) = Inr base"
    using v tf by (simp add: replace_time_Inr base_def)
  have vb: "valid_datetime base"
    unfolding base_def using v tf by (rule replace_time_valid)
  have eq: "compute_next_run t r =
            (if dt_le base r
             then (case dt_add base (mk_timedelta 0 1 0 0) of
                     Inl e \<Rightarrow> Inl e | Inr b \<Rightarrow> Inr (Some b))
             else Inr (Some base))"
    using rep by (simp add: compute_next_run_def ty Let_def sec_def mi_def)
  show ?thesis
  proof (cases "dt_le base r")
    case True
    have "after_or_overflow r (dt_add base (mk_timedelta 0 1 0 0))"
      using vb by (rule add_hour_after) (simp_all add: base_def)
    then show ?thesis unfolding eq using True by (simp add: next_run_after_lift)
  next
    case False
    with vb show ?thesis unfolding eq by (simp add: next_run_after_base)
  qed
qed

lemma base_at_time_of_day:
  assumes v: "valid_datetime r" and vt: "valid_trigger t"
  defines "tod \<equiv> (case trigger_time t of Some tm \<Rightarrow> tm | None \<Rightarrow> DEFAULT_TIME)"
  defines "base \<equiv> \<lparr>year = year r, month = month r, day = day r, hour = t_hour tod,
    minute = t_minute tod, second = t_second tod, microsecond = 0\<rparr>"
  shows "replace_time r (Some (t_hour tod)) (Some (t_minute tod)) (Some (t_second tod)) (Some 0)
           = Inr base"
    and "valid_datetime base"
proof -
  have tf: "valid_time_fields (t_hour tod) (t_minute tod) (t_second tod) 0"
    using valid_trigger_time[OF vt] by (simp add: valid_dt_time_def tod_def)
  show "replace_time r (Some (t_hour tod)) (Some (t_minute tod)) (Some (t_second tod)) (Some 0)
           = Inr base"
    using v tf by (simp add: replace_time_Inr base_def)
  show "valid_datetime base"
    unfolding base_def using v tf by (rule replace_time_valid)
qed

lemma next_run_daily:
  assumes v: "valid_datetime r" and vt: "valid_trigger t" and ty: "trigger_type t = DAILY"
  shows "next_run_after r (compute_next_run t r)"
proof -
  define tod where "tod = (case trigger_time t of Some tm \<Rightarrow> tm | None \<Rightarrow> DEFAULT_TIME)"
  define base where "base = \<lparr>year = year r, month = month r, day = day r, hour = t_hour tod,
    minute = t_minute tod, second = t_second tod, microsecond = 0\<rparr>"
  note b = base_at_time_of_day[OF v vt, folded tod_def, folded base_def]
  have eq: "compute_next_run t r =
            (if dt_le base r
             then (case dt_add base (mk_timedelta 1 0 0 0) of
                     Inl e \<Rightarrow> Inl e | Inr b \<Rightarrow> Inr (Some b))
             else Inr (Some base))"
    using b(1) by (simp add: compute_next_run_def ty Let_def tod_def)
  show ?thesis
  proof (cases "dt_le base r")
    case True
    have "after_or_overflow r (dt_add base (mk_timedelta 1 0 0 0))"
      using b(2) by (rule add_days_after) (simp_all add: base_def)
    then show ?thesis unfolding eq using True by (simp add: next_run_after_lift)
  next
    case False
    with b(2) show ?thesis unfolding eq by (simp add: next_run_after_base)
  qed
qed

lemma weekday_range: "0 \<le> weekday dt" "weekday dt \<le> 6"
  by (simp_all add: weekday_def)

lemma weekly_eq:
  assumes v: "valid_datetime r" and vt: "valid_trigger t" and ty: "trigger_type t = WEEKLY"
  defines "tod \<equiv> (case trigger_time t of Some tm \<Rightarrow> tm | None \<Rightarrow> DEFAULT_TIME)"
  defines "base \<equiv> \<lparr>year = year r, month = month r, day = day r, hour = t_hour tod,
    minute = t_minute tod, second = t_second tod, microsecond = 0\<rparr>"
  defines "k \<equiv> ((case trigger_weekday t of Some w \<Rightarrow> w | None \<Rightarrow> weekday r) - weekday r) mod 7"
  shows "compute_next_run t r =
         (case (if 0 < k \<or> \<not> dt_le base r
                then shifted base k (t_hour tod) (t_minute tod) (t_second tod) 0
                else shifted base 7 (t_hour tod) (t_minute tod) (t_second tod) 0) of
            Inl e \<Rightarrow> Inl e | Inr c \<Rightarrow> Inr (Some c))"
proof -
  note b = base_at_time_of_day[OF v vt, folded tod_def, folded base_def]
  have wb: "weekday base = weekday r"
    by (simp add: weekday_def toordinal_def base_def)
  have k: "0 \<le> k" "k \<le> 6" by (simp_all add: k_def)
  have tf: "valid_time_fields (t_hour tod) (t_minute tod) (t_second tod) 0"
    using valid_trigger_time[OF vt] by (simp add: valid_dt_time_def tod_def)
  have addk: "dt_add base (mk_timedelta n 0 0 0) =
              shifted base n (t_hour tod) (t_minute tod) (t_second tod) 0" for n
    using dt_add_days[OF b(2), of n] by (simp add: base_def)
  have eq: "compute_next_run t r =
            (case shifted base k (t_hour tod) (t_minute tod) (t_second tod) 0 of
               Inl e \<Rightarrow> Inl e
             | Inr candidate \<Rightarrow>
                 if dt_le candidate r
                 then (case dt_add candidate (mk_timedelta 7 0 0 0) of
                         Inl e \<Rightarrow> Inl e | Inr c \<Rightarrow> Inr (Some c))
                 else Inr (Some candidate))"
    using b(1) by (simp add: compute_next_run_def ty Let_def tod_def[symmetric] wb k_def addk)
  show ?thesis
  proof (cases "0 < k")
    case True
    have "(\<exists>d. shifted base k (t_hour tod) (t_minute tod) (t_second tod) 0 = Inr d \<and>
               valid_datetime d \<and> dt_less r d \<and>
               (year d, month d, day d) = date_shift (year base, month base, day base) k \<and>
               hour d = t_hour tod \<and> minute d = t_minute tod \<and> second d = t_second tod \<and>
               microsecond d = 0) \<or>
          (shifted base k (t_hour tod) (t_minute tod) (t_second tod) 0 = Inl OverflowError \<and>
           year r = 9999 \<and> month r = 12)"
      using b(2) _ _ _ k(1) _ tf
      by (rule shifted_after) (use True k in \<open>simp_all add: base_def\<close>)
    then show ?thesis
      unfolding eq using True by (auto simp: dt_not_le[symmetric])
  next
    case False
    with k have k0: "k = 0" by simp
    have "shifted base 0 (t_hour tod) (t_minute tod) (t_second tod) 0 = Inr base"
      using shifted_0_self[OF b(2)] by (simp add: base_def)
    then show ?thesis
      unfolding eq k0 by (simp add: addk)
  qed
qed

lemma next_run_weekly:
  assumes v: "valid_datetime r" and vt: "valid_trigger t" and ty: "trigger_type t = WEEKLY"
  shows "next_run_after r (compute_next_run t r)"
proof -
  define tod where "tod = (case trigger_time t of Some tm \<Rightarrow> tm | None \<Rightarrow> DEFAULT_TIME)"
  define base where "base = \<lparr>year = year r, month = month r, day = day r, hour = t_hour tod,
    minute = t_minute tod, second = t_second tod, microsecond = 0\<rparr>"
  define k where "k = ((case trigger_weekday t of Some w \<Rightarrow> w | None \<Rightarrow> weekday r) - weekday r) mod 7"
  note b = base_at_time_of_day[OF v vt, folded tod_def, folded base_def]
  note eq = weekly_eq[OF v vt ty, folded tod_def, folded base_def, folded k_def]
  have k: "0 \<le> k" "k \<le> 6" by (simp_all add: k_def)
  have tf: "valid_time_fields (t_hour tod) (t_minute tod) (t_second tod) 0"
    using valid_trigger_time[OF vt] by (simp add: valid_dt_time_def tod_def)
  have same: "year r = year base" "month r = month base" "day r = day base"
    by (simp_all add: base_def)
  show ?thesis
  proof (cases "0 < k \<or> \<not> dt_le base r")
    case True
    then have "0 < k \<or> (hour r, minute r, second r, microsecond r) <
                 (t_hour tod, t_minute tod, t_second tod, 0)"
      by (auto simp: dt_le_def dt_key_def base_def not_le)
    then have "after_or_overflow r (shifted base k (t_hour tod) (t_minute tod) (t_second tod) 0)"
      using k by (intro shifted_after_or_overflow[OF b(2) same k(1) _ tf]) simp_all
    then show ?thesis unfolding eq using True by (simp add: next_run_after_lift)
  next
    case False
    have "after_or_overflow r (shifted base 7 (t_hour tod) (t_minute tod) (t_second tod) 0)"
      using b(2) same _ _ tf by (rule shifted_after_or_overflow) simp_all
    then show ?thesis unfolding eq using False by (simp add: next_run_after_lift)
  qed
qed

lemma monthly_eq:
  assumes v: "valid_datetime r" and vt: "valid_trigger t" and ty: "trigger_type t = MONTHLY"
  defines "tod \<equiv> (case trigger_time t of Some tm \<Rightarrow> tm | None \<Rightarrow> DEFAULT_TIME)"
  defines "d \<equiv> (case trigger_day t of Some w \<Rightarrow> w | None \<Rightarrow> day r)"
  shows "compute_next_run t r =
         (if \<not> dt_le (month_candidate d tod (year r) (month r)) r
          then Inr (Some (month_candidate d tod (year r) (month r)))
          else if month r < 12 then Inr (Some (month_candidate d tod (year r) (month r + 1)))
          else if year r < 9999 then Inr (Some (month_candidate d tod (year r + 1) 1))
          else Inl ValueError)"
proof -
  note b = base_at_time_of_day[OF v vt, folded tod_def]
  note dv = valid_datetimeD[OF v]
  have d1: "1 \<le> d"
    using vt dv by (auto simp: d_def valid_trigger_def split: option.splits)
  have vtod: "valid_dt_time tod"
    using valid_trigger_time[OF vt] by (simp add: tod_def)
  have c: "clamped_month_datetime y m d tod =
           (if 1 \<le> y \<and> y \<le> 9999 then Inr (month_candidate d tod y m) else Inl ValueError)"
    if "1 \<le> m" "m \<le> 12" for y m
    using that d1 vtod by (simp add: clamped_month_datetime_eq month_candidate_def)
  have c0: "clamped_month_datetime (year r) (month r) d tod =
            Inr (month_candidate d tod (year r) (month r))"
    using dv by (simp add: c)
  have c1: "clamped_month_datetime (year r) (month r + 1) d tod =
            Inr (month_candidate d tod (year r) (month r + 1))"
    if "month r < 12"
    using dv that by (simp add: c)
  have c2: "clamped_month_datetime (year r + 1) 1 d tod =
            (if year r < 9999 then Inr (month_candidate d tod (year r + 1) 1)
             else Inl ValueError)"
    using dv by (simp add: c)
  show ?thesis
    using dv(5) b(1)
    by (simp add: compute_next_run_def ty Let_def tod_def[symmetric] d_def[symmetric] c0 c1 c2)
qed

lemma month_candidate_valid:
  assumes "1 \<le> d" "valid_dt_time tod" "1 \<le> y" "y \<le> 9999" "1 \<le> m" "m \<le> 12"
  shows "valid_datetime (month_candidate d tod y m)"
proof -
  have "1 \<le> days_in_month y m" by (simp add: days_in_month_def mdays_def)
  with assms show ?thesis
    by (simp add: month_candidate_def valid_datetime_def valid_date_def valid_dt_time_def
        MINYEAR_def MAXYEAR_def)
qed

lemma month_candidate_later:
  "(year r, month r) < (y, m) \<Longrightarrow> dt_less r (month_candidate d tod y m)"
  by (auto simp: dt_less_def dt_key_def month_candidate_def)

lemma next_run_monthly:
  assumes v: "valid_datetime r" and vt: "valid_trigger t" and ty: "trigger_type t = MONTHLY"
  shows "next_run_after r (compute_next_run t r)"
proof -
  define tod where "tod = (case trigger_time t of Some tm \<Rightarrow> tm | None \<Rightarrow> DEFAULT_TIME)"
  define d where "d = (case trigger_day t of Some w \<Rightarrow> w | None \<Rightarrow> day r)"
  note eq = monthly_eq[OF v vt ty, folded tod_def, folded d_def]
  note dv = valid_datetimeD[OF v]
  have d1: "1 \<le> d"
    using vt dv by (auto simp: d_def valid_trigger_def split: option.splits)
  have vtod: "valid_dt_time tod"
    using valid_trigger_time[OF vt] by (simp add: tod_def)
  note vc = month_candidate_valid[OF d1 vtod]
  show ?thesis
  proof (cases "dt_le (month_candidate d tod (year r) (month r)) r")
    case False
    moreover have "valid_datetime (month_candidate d tod (year r) (month r))"
      using dv by (intro vc) simp_all
    ultimately show ?thesis
      unfolding eq by (simp add: next_run_after_base)
  next
    case True
    show ?thesis
    proof (cases "month r < 12")
      case m: True
      with dv have "valid_datetime (month_candidate d tod (year r) (month r + 1))"
        by (intro vc) simp_all
      moreover have "dt_less r (month_candidate d tod (year r) (month r + 1))"
        by (rule month_candidate_later) simp
      ultimately show ?thesis unfolding eq using True m by (simp add: next_run_after_def)
    next
      case m: False
      with dv have m12: "month r = 12" by simp
      show ?thesis
      proof (cases "year r < 9999")
        case y: True
        with dv have "valid_datetime (month_candidate d tod (year r + 1) 1)"
          by (intro vc) simp_all
        moreover have "dt_less r (month_candidate d tod (year r + 1) 1)"
          by (rule month_candidate_later) simp
        ultimately show ?thesis unfolding eq using True m y by (simp add: next_run_after_def)
      next
        case y: False
        with dv have "year r = 9999" by simp
        with m12 show ?thesis unfolding eq using True m y by (simp add: next_run_after_def)
      qed
    qed
  qed
qed

lemma next_run_after_all:
  assumes "valid_datetime r" and "valid_trigger t" and "trigger_type t \<noteq> EVENT"
  shows "next_run_after r (compute_next_run t r)"
proof (cases "trigger_type t")
  case EVENT
  with assms(3) show ?thesis by simp
next
  case MINUTELY
  with assms show ?thesis by (simp add: next_run_minutely)
next
  case HOURLY
  with assms show ?thesis by (simp add: next_run_hourly)
next
  case DAILY
  with assms show ?thesis by (simp add: next_run_daily)
next
  case WEEKLY
  with assms show ?thesis by (simp add: next_run_weekly)
next
  case MONTHLY
  with assms show ?thesis by (simp add: next_run_monthly)
qed

text \<open>
  C1, as amended. For every well-formed trigger whose type is not \<open>EVENT\<close> and every
  reference instant \<open>r\<close>, \<open>compute_next_run\<close> returns an instant strictly after \<open>r\<close>,
  unless \<open>r\<close> lies in December 9999, where it may instead raise \<^verbatim>\<open>OverflowError\<close>
  or \<^verbatim>\<open>ValueError\<close> because the next period is no \<^verbatim>\<open>datetime\<close>. It never returns
  \<open>None\<close>, the reference itself or an earlier instant.
\<close>

theorem compute_next_run_strictly_later:
  assumes "valid_datetime r" and "valid_trigger t" and "trigger_type t \<noteq> EVENT"
  shows "(\<exists>d. compute_next_run t r = Inr (Some d) \<and> valid_datetime d \<and> dt_less r d) \<or>
         ((compute_next_run t r = Inl OverflowError \<or> compute_next_run t r = Inl ValueError) \<and>
          year r = 9999 \<and> month r = 12)"
proof -
  from assms have "next_run_after r (compute_next_run t r)"
    by (rule next_run_after_all)
  then show ?thesis
    unfolding next_run_after_def .
qed

lemma mod7_cancel:
  fixes x w :: int
  shows "(x + (w - x mod 7) mod 7) mod 7 = w mod 7"
proof -
  have "(x + (w - x mod 7) mod 7) mod 7 = (x + (w - x mod 7)) mod 7"
    by (rule mod_add_right_eq)
  also have "x + (w - x mod 7) = (w + x) - x mod 7"
    by linarith
  also have "((w + x) - x mod 7) mod 7 = ((w + x) - x) mod 7"
    by (rule mod_diff_right_eq)
  also have "\<dots> = w mod 7" by simp
  finally show ?thesis .
qed

lemma weekday_shift:
  fixes a w :: int
  shows "(a + ((w - (a + 6) mod 7) mod 7) + 6) mod 7 = w mod 7"
proof -
  have "a + ((w - (a + 6) mod 7) mod 7) + 6 = (a + 6) + (w - (a + 6) mod 7) mod 7"
    by linarith
  then show ?thesis by (simp only: mod7_cancel)
qed

lemma weekday_shift7:
  fixes a w :: int
  shows "(a + (((w - (a + 6) mod 7) mod 7) + 7) + 6) mod 7 = w mod 7"
proof -
  have "a + (((w - (a + 6) mod 7) mod 7) + 7) + 6 = (a + ((w - (a + 6) mod 7) mod 7) + 6) + 7"
    by linarith
  then have "(a + (((w - (a + 6) mod 7) mod 7) + 7) + 6) mod 7 =
             ((a + ((w - (a + 6) mod 7) mod 7) + 6) + 7) mod 7" by (simp only:)
  also have "\<dots> = (a + ((w - (a + 6) mod 7) mod 7) + 6) mod 7" by (rule mod_add_self2)
  also have "\<dots> = w mod 7" by (rule weekday_shift)
  finally show ?thesis .
qed

text \<open>
  C7. For a weekly trigger, let \<open>k = (target_weekday - weekday r) mod 7\<close> (the candidate
  has the date of \<open>r\<close>, so its weekday is that of \<open>r\<close>). The next run is at the target
  time of day, \<open>k\<close> days after the date of \<open>r\<close> when that candidate is strictly after
  \<open>r\<close> (that is, when \<open>k > 0\<close> or the time of day of \<open>r\<close> is before the target time), and
  \<open>k + 7\<close> days after it otherwise; it falls on the target weekday. In particular a
  Wednesday 09:00 trigger and a reference on a Wednesday at 23:00 give the Wednesday
  seven days later. Only in December 9999 can the shift leave the range of
  \<^verbatim>\<open>datetime\<close> and raise \<^verbatim>\<open>OverflowError\<close>.
\<close>

theorem weekly_next_run:
  assumes v: "valid_datetime r" and vt: "valid_trigger t" and ty: "trigger_type t = WEEKLY"
  defines "tod \<equiv> (case trigger_time t of Some tm \<Rightarrow> tm | None \<Rightarrow> DEFAULT_TIME)"
  defines "wd \<equiv> (case trigger_weekday t of Some w \<Rightarrow> w | None \<Rightarrow> weekday r)"
  defines "k \<equiv> (wd - weekday r) mod 7"
  defines "n \<equiv> (if 0 < k \<or> (hour r, minute r, second r, microsecond r) <
                              (t_hour tod, t_minute tod, t_second tod, 0)
                then k else k + 7)"
  shows "((\<exists>c. compute_next_run t r = Inr (Some c) \<and> valid_datetime c \<and>
              toordinal c = toordinal r + n \<and>
              hour c = t_hour tod \<and> minute c = t_minute tod \<and> second c = t_second tod \<and>
              microsecond c = 0 \<and> weekday c = wd mod 7 \<and> dt_less r c) \<or>
          (compute_next_run t r = Inl OverflowError \<and> year r = 9999 \<and> month r = 12)) \<and>
         (wd = 2 \<and> weekday r = 2 \<and> hour r = 23 \<and> t_hour tod = 9 \<longrightarrow> n = 7)"
proof
  define base where "base = \<lparr>year = year r, month = month r, day = day r, hour = t_hour tod,
    minute = t_minute tod, second = t_second tod, microsecond = 0\<rparr>"
  note b = base_at_time_of_day[OF v vt, folded tod_def, folded base_def]
  note eq = weekly_eq[OF v vt ty, folded tod_def, folded base_def, folded wd_def, folded k_def]
  note dv = valid_datetimeD[OF v]
  have k: "0 \<le> k" "k \<le> 6" by (simp_all add: k_def)
  have tf: "valid_time_fields (t_hour tod) (t_minute tod) (t_second tod) 0"
    using valid_trigger_time[OF vt] by (simp add: valid_dt_time_def tod_def)
  have same: "year r = year base" "month r = month base" "day r = day base"
    by (simp_all add: base_def)
  have after: "\<not> dt_le base r \<longleftrightarrow>
               (hour r, minute r, second r, microsecond r) <
               (t_hour tod, t_minute tod, t_second tod, 0)"
    by (auto simp: dt_le_def dt_key_def base_def not_le)
  have n: "0 \<le> n" "n \<le> 31" "0 < n \<or> (hour r, minute r, second r, microsecond r) <
                              (t_hour tod, t_minute tod, t_second tod, 0)"
    using k by (auto simp: n_def)
  have eqn: "compute_next_run t r =
             (case shifted base n (t_hour tod) (t_minute tod) (t_second tod) 0 of
                Inl e \<Rightarrow> Inl e | Inr c \<Rightarrow> Inr (Some c))"
    unfolding eq after n_def using k by (cases "0 < k") auto
  have wk: "(toordinal r + n + 6) mod 7 = wd mod 7"
  proof (cases "n = k")
    case True
    show ?thesis
      unfolding True k_def weekday_def by (rule weekday_shift)
  next
    case False
    then have "n = k + 7" by (simp add: n_def split: if_splits)
    then show ?thesis
      unfolding k_def weekday_def by (simp only: weekday_shift7)
  qed
  from shifted_after[OF b(2) same n(1,2) tf n(3)]
  show "(\<exists>c. compute_next_run t r = Inr (Some c) \<and> valid_datetime c \<and>
              toordinal c = toordinal r + n \<and>
              hour c = t_hour tod \<and> minute c = t_minute tod \<and> second c = t_second tod \<and>
              microsecond c = 0 \<and> weekday c = wd mod 7 \<and> dt_less r c) \<or>
          (compute_next_run t r = Inl OverflowError \<and> year r = 9999 \<and> month r = 12)"
  proof
    assume "\<exists>d. shifted base n (t_hour tod) (t_minute tod) (t_second tod) 0 = Inr d \<and>
        valid_datetime d \<and> dt_less r d \<and>
        (year d, month d, day d) = date_shift (year base, month base, day base) n \<and>
        hour d = t_hour tod \<and> minute d = t_minute tod \<and> second d = t_second tod \<and>
        microsecond d = 0"
    then obtain c where c: "shifted base n (t_hour tod) (t_minute tod) (t_second tod) 0 = Inr c"
      "valid_datetime c" "dt_less r c"
      "(year c, month c, day c) = date_shift (year base, month base, day base) n"
      "hour c = t_hour tod" "minute c = t_minute tod" "second c = t_second tod"
      "microsecond c = 0" by blast
    have "toordinal c = ymd2ord (date_shift (year r, month r, day r) n)"
      using c(4) by (simp add: toordinal_def base_def)
    also have "\<dots> = toordinal r + n"
      using dv(3) by (simp add: ymd2ord_date_shift toordinal_def)
    finally have ord: "toordinal c = toordinal r + n" .
    with wk have "weekday c = wd mod 7" by (simp add: weekday_def)
    with c ord show ?thesis unfolding eqn by simp
  next
    assume "shifted base n (t_hour tod) (t_minute tod) (t_second tod) 0 = Inl OverflowError \<and>
      year r = 9999 \<and> month r = 12"
    then show ?thesis unfolding eqn by simp
  qed
next
  show "wd = 2 \<and> weekday r = 2 \<and> hour r = 23 \<and> t_hour tod = 9 \<longrightarrow> n = 7"
    by (auto simp: n_def k_def)
qed

theorem compute_next_run_strictly_later_witness:
  "valid_datetime \<lparr>year = 2024, month = 5, day = 17, hour = 10, minute = 45, second = 0,
                   microsecond = 0\<rparr> \<and>
   valid_trigger \<lparr>trigger_type = HOURLY, trigger_time = None, trigger_weekday = None,
                  trigger_day = None, trigger_minute = Some 30\<rparr> \<and>
   trigger_type \<lparr>trigger_type = HOURLY, trigger_time = None, trigger_weekday = None,
                 trigger_day = None, trigger_minute = Some 30\<rparr> \<noteq> EVENT \<and>
   compute_next_run
     \<lparr>trigger_type = HOURLY, trigger_time = None, trigger_weekday = None,
      trigger_day = None, trigger_minute = Some 30\<rparr>
     \<lparr>year = 2024, month = 5, day = 17, hour = 10, minute = 45, second = 0, microsecond = 0\<rparr>
   = Inr (Some \<lparr>year = 2024, month = 5, day = 17, hour = 11, minute = 30, second = 0,
                 microsecond = 0\<rparr>) \<and>
   dt_less
     \<lparr>year = 2024, month = 5, day = 17, hour = 10, minute = 45, second = 0, microsecond = 0\<rparr>
     \<lparr>year = 2024, month = 5, day = 17, hour = 11, minute = 30, second = 0, microsecond = 0\<rparr>"
proof -
  let ?r = "\<lparr>year = 2024, month = 5, day = 17, hour = 10, minute = 45, second = 0,
              microsecond = 0\<rparr>"
  let ?t = "\<lparr>trigger_type = HOURLY, trigger_time = None, trigger_weekday = None,
              trigger_day = None, trigger_minute = Some 30\<rparr>"
  have h1: "valid_datetime ?r" by code_simp
  have h2: "valid_trigger ?t" by (simp add: valid_trigger_def)
  have h3: "trigger_type ?t \<noteq> EVENT" by simp
  have e: "compute_next_run ?t ?r =
           Inr (Some \<lparr>year = 2024, month = 5, day = 17, hour = 11, minute = 30, second = 0,
                       microsecond = 0\<rparr>)"
    by code_simp
  from compute_next_run_strictly_later[OF h1 h2 h3]
  obtain d where "compute_next_run ?t ?r = Inr (Some d)" "dt_less ?r d" by auto
  with e h1 h2 h3 show ?thesis by simp
qed

text \<open>
  C1 as stated fails at the end of the range of \<^verbatim>\<open>datetime\<close>: for a minutely trigger
  and the reference 9999-12-31 23:59:30 the call raises and returns no instant.
\<close>

theorem compute_next_run_end_of_range:
  "compute_next_run
     \<lparr>trigger_type = MINUTELY, trigger_time = None, trigger_weekday = None,
      trigger_day = None, trigger_minute = None\<rparr>
     \<lparr>year = 9999, month = 12, day = 31, hour = 23, minute = 59, second = 30,
      microsecond = 0\<rparr>
   = Inl OverflowError"
  by code_simp

theorem weekly_next_run_witness:
  "valid_datetime \<lparr>year = 2024, month = 1, day = 3, hour = 23, minute = 0, second = 0,
                   microsecond = 0\<rparr> \<and>
   valid_trigger \<lparr>trigger_type = WEEKLY,
                  trigger_time = Some \<lparr>t_hour = 9, t_minute = 0, t_second = 0\<rparr>,
                  trigger_weekday = Some 2, trigger_day = None, trigger_minute = None\<rparr> \<and>
   weekday \<lparr>year = 2024, month = 1, day = 3, hour = 23, minute = 0, second = 0,
            microsecond = 0\<rparr> = 2 \<and>
   (\<exists>c. compute_next_run
          \<lparr>trigger_type = WEEKLY,
           trigger_time = Some \<lparr>t_hour = 9, t_minute = 0, t_second = 0\<rparr>,
           trigger_weekday = Some 2, trigger_day = None, trigger_minute = None\<rparr>
          \<lparr>year = 2024, month = 1, day = 3, hour = 23, minute = 0, second = 0,
           microsecond = 0\<rparr> = Inr (Some c) \<and>
        c = \<lparr>year = 2024, month = 1, day = 10, hour = 9, minute = 0, second = 0,
             microsecond = 0\<rparr> \<and>
        toordinal c =
          toordinal \<lparr>year = 2024, month = 1, day = 3, hour = 23, minute = 0, second = 0,
                     microsecond = 0\<rparr> + 7 \<and>
        weekday c = 2)"
proof -
  let ?r = "\<lparr>year = 2024, month = 1, day = 3, hour = 23, minute = 0, second = 0,
              microsecond = 0\<rparr>"
  let ?t = "\<lparr>trigger_type = WEEKLY,
              trigger_time = Some \<lparr>t_hour = 9, t_minute = 0, t_second = 0\<rparr>,
              trigger_weekday = Some 2, trigger_day = None, trigger_minute = None\<rparr>"
  have h1: "valid_datetime ?r" by code_simp
  have h2: "valid_trigger ?t"
    by (simp add: valid_trigger_def valid_dt_time_def valid_time_fields_def)
  have h3: "trigger_type ?t = WEEKLY" by simp
  have w: "weekday ?r = 2" by code_simp
  have e: "compute_next_run ?t ?r =
           Inr (Some \<lparr>year = 2024, month = 1, day = 10, hour = 9, minute = 0, second = 0,
                       microsecond = 0\<rparr>)"
    by code_simp
  from weekly_next_run[OF h1 h2 h3] w
  obtain c where "compute_next_run ?t ?r = Inr (Some c)" "toordinal c = toordinal ?r + 7"
    "weekday c = 2"
    by auto
  with e h1 h2 w show ?thesis by auto
qed

text \<open>
  C6. For a monthly trigger with day \<open>d\<close>, the next run is on the day
  \<open>min d (days_in_month y m)\<close> of its month: the month of the reference when that
  candidate is strictly after the reference, otherwise the next month (January of the
  next year after December), with the day clamped again for that month. With \<open>d = 31\<close>
  and February of a year that is no leap year the day is 28. Only a reference in
  December 9999 has no next month: the constructor then raises \<^verbatim>\<open>ValueError\<close>.
\<close>

theorem monthly_day_clamped:
  assumes v: "valid_datetime r" and vt: "valid_trigger t" and ty: "trigger_type t = MONTHLY"
  defines "tod \<equiv> (case trigger_time t of Some tm \<Rightarrow> tm | None \<Rightarrow> DEFAULT_TIME)"
  defines "d \<equiv> (case trigger_day t of Some w \<Rightarrow> w | None \<Rightarrow> day r)"
  shows "(\<exists>c. compute_next_run t r = Inr (Some c) \<and> valid_datetime c \<and>
              day c = min d (days_in_month (year c) (month c)) \<and>
              hour c = t_hour tod \<and> minute c = t_minute tod \<and> second c = t_second tod \<and>
              microsecond c = 0 \<and>
              (year c, month c) =
                (if dt_less r \<lparr>year = year r, month = month r,
                              day = min d (days_in_month (year r) (month r)),
                              hour = t_hour tod, minute = t_minute tod,
                              second = t_second tod, microsecond = 0\<rparr>
                 then (year r, month r)
                 else if month r < 12 then (year r, month r + 1)
                 else (year r + 1, 1)) \<and>
              (d = 31 \<and> month c = 2 \<and> \<not> is_leap (year c) \<longrightarrow> day c = 28)) \<or>
         (compute_next_run t r = Inl ValueError \<and> year r = 9999 \<and> month r = 12)"
proof -
  note eq = monthly_eq[OF v vt ty, folded tod_def, folded d_def]
  note dv = valid_datetimeD[OF v]
  have d1: "1 \<le> d"
    using vt dv by (auto simp: d_def valid_trigger_def split: option.splits)
  have vtod: "valid_dt_time tod"
    using valid_trigger_time[OF vt] by (simp add: tod_def)
  note vc = month_candidate_valid[OF d1 vtod]
  have feb: "d = 31 \<and> m = 2 \<and> \<not> is_leap y \<longrightarrow> day (month_candidate d tod y m) = 28" for y m
    by (simp add: month_candidate_def days_in_month_def mdays_def)
  have fields: "day (month_candidate d tod y m) = min d (days_in_month y m)"
    "hour (month_candidate d tod y m) = t_hour tod"
    "minute (month_candidate d tod y m) = t_minute tod"
    "second (month_candidate d tod y m) = t_second tod"
    "microsecond (month_candidate d tod y m) = 0"
    "year (month_candidate d tod y m) = y" "month (month_candidate d tod y m) = m" for y m
    by (simp_all add: month_candidate_def)
  have cur: "\<lparr>year = year r, month = month r,
               day = min d (days_in_month (year r) (month r)),
               hour = t_hour tod, minute = t_minute tod,
               second = t_second tod, microsecond = 0\<rparr> =
             month_candidate d tod (year r) (month r)"
    by (simp add: month_candidate_def)
  show ?thesis
  proof (cases "dt_le (month_candidate d tod (year r) (month r)) r")
    case False
    moreover have "valid_datetime (month_candidate d tod (year r) (month r))"
      using dv by (intro vc) simp_all
    ultimately show ?thesis
      unfolding eq cur using feb[where y = "year r" and m = "month r"]
      by (simp add: fields dt_not_le)
  next
    case True
    show ?thesis
    proof (cases "month r < 12")
      case m: True
      with dv have "valid_datetime (month_candidate d tod (year r) (month r + 1))"
        by (intro vc) simp_all
      then show ?thesis
        unfolding eq cur using True m feb[where y = "year r" and m = "month r + 1"]
        by (simp add: fields dt_not_le[symmetric])
    next
      case m: False
      show ?thesis
      proof (cases "year r < 9999")
        case y: True
        with dv have "valid_datetime (month_candidate d tod (year r + 1) 1)"
          by (intro vc) simp_all
        then show ?thesis
          unfolding eq cur using True m y
          by (simp add: fields dt_not_le[symmetric])
      next
        case y: False
        with dv m have "year r = 9999" "month r = 12" by simp_all
        then show ?thesis unfolding eq using True m y by simp
      qed
    qed
  qed
qed

theorem monthly_day_clamped_witness:
  "valid_datetime \<lparr>year = 2023, month = 1, day = 31, hour = 10, minute = 0, second = 0,
                   microsecond = 0\<rparr> \<and>
   valid_trigger \<lparr>trigger_type = MONTHLY,
                  trigger_time = Some \<lparr>t_hour = 9, t_minute = 0, t_second = 0\<rparr>,
                  trigger_weekday = None, trigger_day = Some 31, trigger_minute = None\<rparr> \<and>
   \<not> is_leap 2023 \<and>
   compute_next_run
     \<lparr>trigger_type = MONTHLY,
      trigger_time = Some \<lparr>t_hour = 9, t_minute = 0, t_second = 0\<rparr>,
      trigger_weekday = None, trigger_day = Some 31, trigger_minute = None\<rparr>
     \<lparr>year = 2023, month = 1, day = 31, hour = 10, minute = 0, second = 0, microsecond = 0\<rparr>
   = Inr (Some \<lparr>year = 2023, month = 2, day = 28, hour = 9, minute = 0, second = 0,
                 microsecond = 0\<rparr>)"
proof -
  let ?r = "\<lparr>year = 2023, month = 1, day = 31, hour = 10, minute = 0, second = 0,
              microsecond = 0\<rparr>"
  let ?t = "\<lparr>trigger_type = MONTHLY,
              trigger_time = Some \<lparr>t_hour = 9, t_minute = 0, t_second = 0\<rparr>,
              trigger_weekday = None, trigger_day = Some 31, trigger_minute = None\<rparr>"
  have h1: "valid_datetime ?r" by code_simp
  have h2: "valid_trigger ?t"
    by (simp add: valid_trigger_def valid_dt_time_def valid_time_fields_def)
  have h3: "trigger_type ?t = MONTHLY" by simp
  have l: "\<not> is_leap 2023" by code_simp
  have nl: "\<not> dt_less ?r \<lparr>year = 2023, month = 1, day = min 31 (days_in_month 2023 1),
                            hour = 9, minute = 0, second = 0, microsecond = 0\<rparr>"
    by code_simp
  from monthly_day_clamped[OF h1 h2 h3] nl
  obtain c where c: "compute_next_run ?t ?r = Inr (Some c)"
    "day c = min 31 (days_in_month (year c) (month c))"
    "hour c = 9" "minute c = 0" "second c = 0" "microsecond c = 0"
    "year c = 2023" "month c = 2"
    by auto
  have "days_in_month 2023 2 = 28" by code_simp
  with c have "c = \<lparr>year = 2023, month = 2, day = 28, hour = 9, minute = 0, second = 0,
                    microsecond = 0\<rparr>"
    by (cases c) simp
  with c(1) h1 h2 l show ?thesis by simp
qed

text \<open>
  Two more runs of the monthly branch: after December the year wraps, and the day is
  clamped for the month that is reached (the 31st becomes the 30th of April).
\<close>

lemma monthly_december_wraps:
  "compute_next_run
     \<lparr>trigger_type = MONTHLY,
      trigger_time = Some \<lparr>t_hour = 9, t_minute = 0, t_second = 0\<rparr>,
      trigger_weekday = None, trigger_day = Some 31, trigger_minute = None\<rparr>
     \<lparr>year = 2023, month = 12, day = 31, hour = 10, minute = 0, second = 0, microsecond = 0\<rparr>
   = Inr (Some \<lparr>year = 2024, month = 1, day = 31, hour = 9, minute = 0, second = 0,
                 microsecond = 0\<rparr>)"
  by code_simp

lemma monthly_april_has_30_days:
  "compute_next_run
     \<lparr>trigger_type = MONTHLY,
      trigger_time = Some \<lparr>t_hour = 9, t_minute = 0, t_second = 0\<rparr>,
      trigger_weekday = None, trigger_day = Some 31, trigger_minute = None\<rparr>
     \<lparr>year = 2024, month = 3, day = 31, hour = 10, minute = 0, second = 0, microsecond = 0\<rparr>
   = Inr (Some \<lparr>year = 2024, month = 4, day = 30, hour = 9, minute = 0, second = 0,
                 microsecond = 0\<rparr>)"
  by code_simp

section \<open>Facts about the change detector\<close>

lemma diff_new_items_eq:
  "diff_new_items old new events seen =
     (events @ concat (map (new_item_events old) new), seen \<union> fst ` set new)"
  by (induction old new events seen rule: diff_new_items.induct)
     (auto simp: new_item_events_def split: option.splits)

lemma diff_old_items_eq:
  "diff_old_items old events seen = events @ concat (map (old_item_events seen) old)"
  by (induction old events seen rule: diff_old_items.induct)
     (auto simp: old_item_events_def)

lemma diff_snapshots_eq:
  "diff_snapshots old new =
     concat (map (new_item_events old) new) @
     concat (map (old_item_events (fst ` set new)) old)"
  by (simp add: diff_snapshots_def diff_new_items_eq diff_old_items_eq)

lemma monitor_diff_new_items_eq:
  "monitor_diff_new_items old new seen =
     (concat (map (new_item_events old) new), seen \<union> fst ` set new)"
  by (induction old new seen rule: monitor_diff_new_items.induct)
     (auto simp: new_item_events_def Let_def split: option.splits)

lemma monitor_diff_old_items_eq:
  "monitor_diff_old_items old seen = concat (map (old_item_events seen) old)"
  by (induction old seen rule: monitor_diff_old_items.induct)
     (auto simp: old_item_events_def)

lemma monitor_diff_snapshots_eq: "monitor_diff_snapshots old new = diff_snapshots old new"
  by (simp add: monitor_diff_snapshots_def monitor_diff_new_items_eq
      monitor_diff_old_items_eq diff_snapshots_eq)

lemma filter_key_distinct:
  "distinct (map fst xs) \<Longrightarrow>
   filter (\<lambda>x. fst x = p) xs = (case map_of xs p of None \<Rightarrow> [] | Some v \<Rightarrow> [(p, v)])"
proof (induction xs)
  case Nil
  then show ?case by simp
next
  case (Cons x xs)
  obtain k v where x: "x = (k, v)" by (cases x) auto
  show ?case
  proof (cases "k = p")
    case True
    with Cons.prems x have "p \<notin> fst ` set xs" by auto
    then have "filter (\<lambda>x. fst x = p) xs = []" by (auto simp: filter_empty_conv)
    with True x show ?thesis by simp
  next
    case False
    with Cons x show ?thesis by simp
  qed
qed

lemma filter_concat_by_key:
  assumes "\<And>x e. x \<in> set xs \<Longrightarrow> e \<in> set (f x) \<Longrightarrow> path e = fst x"
  shows "filter (\<lambda>e. path e = p) (concat (map f xs)) =
         concat (map f (filter (\<lambda>x. fst x = p) xs))"
  using assms
proof (induction xs)
  case Nil
  then show ?case by simp
next
  case (Cons x xs)
  have tl: "filter (\<lambda>e. path e = p) (concat (map f xs)) =
            concat (map f (filter (\<lambda>x. fst x = p) xs))"
    by (rule Cons.IH) (simp add: Cons.prems)
  have hd: "filter (\<lambda>e. path e = p) (f x) = (if fst x = p then f x else [])"
    using Cons.prems[of x] by (auto simp: filter_empty_conv filter_id_conv)
  show ?case by (simp add: tl hd)
qed

lemma new_item_events_path: "e \<in> set (new_item_events old x) \<Longrightarrow> path e = fst x"
  by (cases x) (auto simp: new_item_events_def split: option.splits if_splits)

lemma old_item_events_path: "e \<in> set (old_item_events seen x) \<Longrightarrow> path e = fst x"
  by (cases x) (auto simp: old_item_events_def split: if_splits)

lemma diff_snapshots_by_path:
  assumes "snapshot_ok old" "snapshot_ok new"
  shows "filter (\<lambda>e. path e = p) (diff_snapshots old new) = records_for old new p"
proof -
  have keys: "p \<in> fst ` set new \<longleftrightarrow> map_of new p \<noteq> None"
    by (simp add: map_of_eq_None_iff)
  have n: "filter (\<lambda>e. path e = p) (concat (map (new_item_events old) new)) =
           concat (map (new_item_events old) (filter (\<lambda>x. fst x = p) new))"
    by (rule filter_concat_by_key) (rule new_item_events_path)
  have m: "filter (\<lambda>e. path e = p) (concat (map (old_item_events (fst ` set new)) old)) =
           concat (map (old_item_events (fst ` set new)) (filter (\<lambda>x. fst x = p) old))"
    by (rule filter_concat_by_key) (rule old_item_events_path)
  have fo: "filter (\<lambda>x. fst x = p) old = (case map_of old p of None \<Rightarrow> [] | Some v \<Rightarrow> [(p, v)])"
    using assms(1) by (simp add: snapshot_ok_def filter_key_distinct)
  have fn: "filter (\<lambda>x. fst x = p) new = (case map_of new p of None \<Rightarrow> [] | Some v \<Rightarrow> [(p, v)])"
    using assms(2) by (simp add: snapshot_ok_def filter_key_distinct)
  show ?thesis
    unfolding diff_snapshots_eq filter_append n m fo fn
    using keys
    by (auto simp: records_for_def new_item_events_def old_item_events_def
        split: option.splits)
qed

lemma diff_snapshots_self_empty:
  assumes "snapshot_ok s"
  shows "diff_snapshots s s = []"
proof -
  have a: "new_item_events s x = []" if "x \<in> set s" for x
  proof -
    obtain p mt sz where x: "x = (p, (mt, sz))" by (cases x) auto
    from that x assms have "map_of s p = Some (mt, sz)"
      by (simp add: snapshot_ok_def)
    with x show ?thesis by (simp add: new_item_events_def)
  qed
  have b: "old_item_events (fst ` set s) x = []" if "x \<in> set s" for x
  proof -
    obtain p mt sz where x: "x = (p, (mt, sz))" by (cases x) auto
    from that x have "p \<in> fst ` set s" by force
    with x show ?thesis by (simp add: old_item_events_def)
  qed
  show ?thesis
    by (simp add: diff_snapshots_eq a b)
qed

text \<open>
  C2. For snapshots \<open>old\<close> and \<open>new\<close> and every path \<open>p\<close>, the records of the diff
  whose path is \<open>p\<close> are exactly: one \<open>CREATED\<close> record (with the size and mtime of
  \<open>new\<close>) when \<open>p\<close> is in \<open>new\<close> only; one \<open>MODIFIED\<close> record when \<open>p\<close> is in both
  and the \<open>(mtime, size)\<close> pairs differ; one \<open>DELETED\<close> record (with the size and mtime
  of \<open>old\<close>) when \<open>p\<close> is in \<open>old\<close> only; none when \<open>p\<close> is in both with equal
  pairs, or in neither. Both copies of the function (\<^verbatim>\<open>actions.py\<close> and
  \<^verbatim>\<open>monitor.py\<close>) do so.
\<close>

theorem diff_snapshots_records:
  assumes "snapshot_ok old" and "snapshot_ok new"
  shows "filter (\<lambda>e. path e = p) (diff_snapshots old new) = records_for old new p \<and>
         filter (\<lambda>e. path e = p) (monitor_diff_snapshots old new) = records_for old new p"
  using assms by (simp add: monitor_diff_snapshots_eq diff_snapshots_by_path)

theorem diff_snapshots_records_witness:
  "snapshot_ok [(''a.txt'', (100, 10))] \<and>
   snapshot_ok [(''a.txt'', (100, 20)), (''b.txt'', (105, 5))] \<and>
   filter (\<lambda>e. path e = ''b.txt'')
     (diff_snapshots [(''a.txt'', (100, 10))]
        [(''a.txt'', (100, 20)), (''b.txt'', (105, 5))]) =
   [\<lparr>event_type = CREATED, path = ''b.txt'', previous_path = None,
     size_val = Some 5, mtime = Some 105\<rparr>] \<and>
   filter (\<lambda>e. path e = ''b.txt'')
     (monitor_diff_snapshots [(''a.txt'', (100, 10))]
        [(''a.txt'', (100, 20)), (''b.txt'', (105, 5))]) =
   [\<lparr>event_type = CREATED, path = ''b.txt'', previous_path = None,
     size_val = Some 5, mtime = Some 105\<rparr>]"
proof -
  have a: "snapshot_ok [(''a.txt'', (100, 10))]"
    by (simp add: snapshot_ok_def)
  have b: "snapshot_ok [(''a.txt'', (100, 20)), (''b.txt'', (105, 5))]"
    by (simp add: snapshot_ok_def)
  have r: "records_for [(''a.txt'', (100, 10))]
             [(''a.txt'', (100, 20)), (''b.txt'', (105, 5))] ''b.txt'' =
           [\<lparr>event_type = CREATED, path = ''b.txt'', previous_path = None,
             size_val = Some 5, mtime = Some 105\<rparr>]"
    by (simp add: records_for_def)
  from diff_snapshots_records[OF a b, of "''b.txt''"] a b r show ?thesis by simp
qed

text \<open>
  C9. Diffing a snapshot against itself gives no change record, in both copies of the
  function.
\<close>

theorem diff_snapshots_same:
  assumes "snapshot_ok s"
  shows "diff_snapshots s s = [] \<and> monitor_diff_snapshots s s = []"
  using assms by (simp add: monitor_diff_snapshots_eq diff_snapshots_self_empty)

theorem diff_snapshots_same_witness:
  "snapshot_ok [(''a.txt'', (100, 20)), (''b.txt'', (105, 5))] \<and>
   diff_snapshots [(''a.txt'', (100, 20)), (''b.txt'', (105, 5))]
     [(''a.txt'', (100, 20)), (''b.txt'', (105, 5))] = [] \<and>
   monitor_diff_snapshots [(''a.txt'', (100, 20)), (''b.txt'', (105, 5))]
     [(''a.txt'', (100, 20)), (''b.txt'', (105, 5))] = []"
proof -
  have a: "snapshot_ok [(''a.txt'', (100, 20)), (''b.txt'', (105, 5))]"
    by (simp add: snapshot_ok_def)
  from diff_snapshots_same[OF a] a show ?thesis by simp
qed

text \<open>
  C10. For any two snapshots, disjoint or not, and every path \<open>p\<close>, the diff holds at
  most one change record whose path is \<open>p\<close>, in both copies of the function.
\<close>

theorem diff_snapshots_one_record_per_path:
  assumes "snapshot_ok old" and "snapshot_ok new"
  shows "length (filter (\<lambda>e. path e = p) (diff_snapshots old new)) \<le> 1 \<and>
         length (filter (\<lambda>e. path e = p) (monitor_diff_snapshots old new)) \<le> 1"
proof -
  have "length (records_for old new p) \<le> 1"
    by (simp add: records_for_def split: option.splits)
  with assms show ?thesis
    by (simp add: monitor_diff_snapshots_eq diff_snapshots_by_path)
qed

theorem diff_snapshots_one_record_per_path_witness:
  "snapshot_ok [(''a.txt'', (100, 10)), (''c.txt'', (90, 1))] \<and>
   snapshot_ok [(''a.txt'', (100, 20)), (''b.txt'', (105, 5))] \<and>
   length (filter (\<lambda>e. path e = ''a.txt'')
     (diff_snapshots [(''a.txt'', (100, 10)), (''c.txt'', (90, 1))]
        [(''a.txt'', (100, 20)), (''b.txt'', (105, 5))])) \<le> 1 \<and>
   length (filter (\<lambda>e. path e = ''a.txt'')
     (monitor_diff_snapshots [(''a.txt'', (100, 10)), (''c.txt'', (90, 1))]
        [(''a.txt'', (100, 20)), (''b.txt'', (105, 5))])) \<le> 1"
proof -
  have a: "snapshot_ok [(''a.txt'', (100, 10)), (''c.txt'', (90, 1))]"
    by (simp add: snapshot_ok_def)
  have b: "snapshot_ok [(''a.txt'', (100, 20)), (''b.txt'', (105, 5))]"
    by (simp add: snapshot_ok_def)
  from diff_snapshots_one_record_per_path[OF a b, of "''a.txt''"] a b show ?thesis
    by blast
qed

section \<open>Facts about the registry\<close>

lemma dt_less_trans: "dt_less a b \<Longrightarrow> dt_less b c \<Longrightarrow> dt_less a c"
  unfolding dt_less_def by (rule less_trans)

lemma dt_less_not_le: "dt_less a b \<Longrightarrow> \<not> dt_le b a"
  by (simp add: dt_le_def dt_less_def not_le)

lemma dt_le_iff_not_less: "dt_le a b \<longleftrightarrow> \<not> dt_less b a"
  by (simp add: dt_le_def dt_less_def not_less)

subsection \<open>Traces\<close>

lemma contexts_built_append: "contexts_built (xs @ ys) = contexts_built xs @ contexts_built ys"
  by (induction xs rule: contexts_built.induct) simp_all

lemma invocations_append: "invocations (xs @ ys) = invocations xs @ invocations ys"
  by (induction xs rule: invocations.induct) simp_all

lemma safe_invoke_trace:
  assumes "safe_invoke a c h w = (r, tr, w')"
  shows "contexts_built tr = []" and "invocations tr = [(act_name a, c)]"
  using assms
  by (auto simp: safe_invoke_def split: prod.splits outcome.splits)

lemma safe_invoke_caught:
  assumes "raises_only_Exception a"
  shows "fst (safe_invoke a c h w) = None"
proof -
  obtain out w' where i: "invoke a c w = (out, w')" by (cases "invoke a c w") auto
  have "fst (act_callback a c (act_options a) w) \<noteq> Raised_BaseException msg" for msg
    using assms unfolding raises_only_Exception_def by blast
  with i have nb: "out \<noteq> Raised_BaseException msg" for msg
    by (simp add: invoke_def)
  show ?thesis
  proof (cases out)
    case Returned
    with i show ?thesis by (simp add: safe_invoke_def)
  next
    case (Raised_Exception msg)
    with i show ?thesis by (simp add: safe_invoke_def)
  next
    case (Raised_BaseException msg)
    with nb[of msg] show ?thesis by simp
  qed
qed

subsection \<open>Event dispatch\<close>

lemma dispatch_event_loop_trace:
  assumes "dispatch_event_loop acts c ev w = (r, tr, w')"
  shows "contexts_built tr = [] \<and>
         (\<exists>n. n \<le> length acts \<and> (acts \<noteq> [] \<longrightarrow> 0 < n) \<and>
              invocations tr = map (\<lambda>a. (act_name a, c)) (take n acts) \<and>
              (r = None \<longrightarrow> n = length acts))"
  using assms
proof (induction acts arbitrary: w r tr w')
  case Nil
  then show ?case by simp
next
  case (Cons a rest)
  obtain r1 tr1 w1 where s: "safe_invoke a c (Some ev) w = (r1, tr1, w1)"
    by (cases "safe_invoke a c (Some ev) w") auto
  note t1 = safe_invoke_trace[OF s]
  show ?case
  proof (cases r1)
    case (Some e)
    with Cons.prems s have "r = Some e" "tr = tr1" by simp_all
    with t1 show ?thesis by (auto intro: exI[of _ 1])
  next
    case None
    obtain r2 tr2 w2 where l: "dispatch_event_loop rest c ev w1 = (r2, tr2, w2)"
      by (cases "dispatch_event_loop rest c ev w1") auto
    from Cons.IH[OF l] obtain n where n: "contexts_built tr2 = []" "n \<le> length rest"
      "invocations tr2 = map (\<lambda>a. (act_name a, c)) (take n rest)"
      "r2 = None \<longrightarrow> n = length rest" by blast
    from Cons.prems s None l have "r = r2" "tr = tr1 @ tr2" by simp_all
    with t1 n show ?thesis
      by (auto simp: contexts_built_append invocations_append intro!: exI[of _ "Suc n"])
  qed
qed

lemma dispatch_event_loop_caught:
  assumes "\<forall>a\<in>set acts. raises_only_Exception a"
  shows "fst (dispatch_event_loop acts c ev w) = None"
  using assms
proof (induction acts arbitrary: w)
  case Nil
  then show ?case by simp
next
  case (Cons a rest)
  from Cons.prems have "fst (safe_invoke a c (Some ev) w) = None"
    by (simp add: safe_invoke_caught)
  then obtain tr1 w1 where s: "safe_invoke a c (Some ev) w = (None, tr1, w1)"
    by (cases "safe_invoke a c (Some ev) w") auto
  from Cons.prems have "fst (dispatch_event_loop rest c ev w1) = None"
    by (intro Cons.IH) simp
  then obtain tr2 w2 where "dispatch_event_loop rest c ev w1 = (None, tr2, w2)"
    by (cases "dispatch_event_loop rest c ev w1") auto
  with s show ?case by simp
qed

subsection \<open>Scheduled dispatch\<close>

lemma schedule_next_run_cases:
  assumes "valid_datetime r" and "scheduled_ok a"
  shows "(\<exists>d. schedule_next_run a r = Inr (a\<lparr>act_next_run_at := Some d\<rparr>) \<and>
              compute_next_run (act_trigger a) r = Inr (Some d) \<and>
              valid_datetime d \<and> dt_less r d) \<or>
         ((\<exists>e. schedule_next_run a r = Inl e) \<and> year r = 9999 \<and> month r = 12)"
proof -
  from assms have "next_run_after r (compute_next_run (act_trigger a) r)"
    by (intro next_run_after_all) (simp_all add: scheduled_ok_def)
  then show ?thesis
    by (auto simp: next_run_after_def schedule_next_run_def)
qed

lemma dt_add_second_cases:
  assumes "valid_datetime now"
  shows "(\<exists>ref. dt_add now (mk_timedelta 0 0 0 1) = Inr ref \<and> valid_datetime ref \<and>
                dt_less now ref \<and>
                ((year ref, month ref, day ref) = (year now, month now, day now) \<or>
                 (year ref, month ref, day ref) = date_succ (year now, month now, day now))) \<or>
         (dt_add now (mk_timedelta 0 0 0 1) = Inl OverflowError \<and>
          year now = 9999 \<and> month now = 12)"
proof -
  note d = valid_datetimeD[OF assms]
  have s1: "date_shift ymd 1 = date_succ ymd" for ymd
    by (simp add: date_shift_def)
  have *: "(\<exists>ref. shifted now k h m s (microsecond now) = Inr ref \<and> valid_datetime ref \<and>
                dt_less now ref \<and>
                ((year ref, month ref, day ref) = (year now, month now, day now) \<or>
                 (year ref, month ref, day ref) = date_succ (year now, month now, day now))) \<or>
         (shifted now k h m s (microsecond now) = Inl OverflowError \<and>
          year now = 9999 \<and> month now = 12)"
    if "k = 0 \<or> k = 1" "valid_time_fields h m s (microsecond now)"
       "0 < k \<or> (hour now, minute now, second now, microsecond now) < (h, m, s, microsecond now)"
    for k h m s
  proof -
    from that(1) have k: "0 \<le> k" "k \<le> 31" by auto
    from shifted_after[OF assms refl refl refl k that(2,3)] that(1)
    show ?thesis by (auto simp: date_shift_0 s1)
  qed
  show ?thesis
  proof (cases "second now < 59")
    case True
    have "valid_time_fields (hour now) (minute now) (second now + 1) (microsecond now)"
      using d True by (simp add: valid_time_fields_def)
    from *[OF _ this] True show ?thesis by (simp add: dt_add_second[OF assms])
  next
    case s: False
    show ?thesis
    proof (cases "minute now < 59")
      case True
      have "valid_time_fields (hour now) (minute now + 1) 0 (microsecond now)"
        using d True by (simp add: valid_time_fields_def)
      from *[OF _ this] s True show ?thesis by (simp add: dt_add_second[OF assms])
    next
      case m: False
      show ?thesis
      proof (cases "hour now < 23")
        case True
        have "valid_time_fields (hour now + 1) 0 0 (microsecond now)"
          using d True by (simp add: valid_time_fields_def)
        from *[OF _ this] s m True show ?thesis by (simp add: dt_add_second[OF assms])
      next
        case False
        have "valid_time_fields 0 0 0 (microsecond now)"
          using d by (simp add: valid_time_fields_def)
        from *[OF _ this, of 1] s m False show ?thesis by (simp add: dt_add_second[OF assms])
      qed
    qed
  qed
qed

lemma dt_add_second_before_last_year:
  assumes "valid_datetime now" and "year now < 9999"
  shows "\<exists>ref. dt_add now (mk_timedelta 0 0 0 1) = Inr ref \<and> valid_datetime ref \<and>
               dt_less now ref \<and> (year ref < 9999 \<or> month ref < 12)"
proof -
  from dt_add_second_cases[OF assms(1)] assms(2)
  obtain ref where ref: "dt_add now (mk_timedelta 0 0 0 1) = Inr ref" "valid_datetime ref"
    "dt_less now ref"
    "(year ref, month ref, day ref) = (year now, month now, day now) \<or>
     (year ref, month ref, day ref) = date_succ (year now, month now, day now)"
    by auto
  from ref(4) assms(2) have "year ref < 9999 \<or> month ref < 12"
    by (auto simp: date_succ_def split: if_splits)
  with ref show ?thesis by blast
qed

lemma scheduled_ok_update:
  "scheduled_ok a \<Longrightarrow> valid_datetime d \<Longrightarrow> scheduled_ok (a\<lparr>act_next_run_at := Some d\<rparr>)"
  "scheduled_ok a \<Longrightarrow> scheduled_ok (a\<lparr>act_previous_snapshot := s\<rparr>)"
  by (simp_all add: scheduled_ok_def)

lemma dispatch_scheduled_action_idle:
  assumes "act_next_run_at a = Some d" and "dt_less now d"
  shows "dispatch_scheduled_action a now rootp snap w = (None, a, [], w)"
  using assms by (simp add: dispatch_scheduled_action_def)

lemma dispatch_scheduled_action_unset:
  assumes v: "valid_datetime now" and ok: "scheduled_ok a" and n: "act_next_run_at a = None"
    and fin: "dispatch_scheduled_action a now rootp snap w = (None, a', tr, w')"
  shows "rescheduled now snap a a' \<and> tr = [] \<and> w' = w"
proof -
  from schedule_next_run_cases[OF v ok] show ?thesis
  proof
    assume "\<exists>d. schedule_next_run a now = Inr (a\<lparr>act_next_run_at := Some d\<rparr>) \<and>
              compute_next_run (act_trigger a) now = Inr (Some d) \<and>
              valid_datetime d \<and> dt_less now d"
    then obtain d where d: "schedule_next_run a now = Inr (a\<lparr>act_next_run_at := Some d\<rparr>)"
      "valid_datetime d" "dt_less now d" by blast
    with n fin have "a' = a\<lparr>act_next_run_at := Some d\<rparr>" "tr = []" "w' = w"
      by (simp_all add: dispatch_scheduled_action_def)
    with d n ok show ?thesis
      by (simp add: rescheduled_def is_due_def scheduled_ok_update)
  next
    assume "(\<exists>e. schedule_next_run a now = Inl e) \<and> year now = 9999 \<and> month now = 12"
    then obtain e where "schedule_next_run a now = Inl e" by blast
    with n fin show ?thesis by (simp add: dispatch_scheduled_action_def)
  qed
qed

lemma dispatch_scheduled_action_due:
  assumes v: "valid_datetime now" and ok: "scheduled_ok a"
    and n: "act_next_run_at a = Some due" and le: "\<not> dt_less now due"
    and fin: "dispatch_scheduled_action a now rootp snap w = (None, a', tr, w')"
  shows "rescheduled now snap a a' \<and>
         contexts_built tr = [scheduled_context rootp snap a] \<and>
         invocations tr = [(act_name a, scheduled_context rootp snap a)]"
proof -
  let ?c = "scheduled_context rootp snap a"
  let ?a2 = "a\<lparr>act_previous_snapshot := Some snap\<rparr>"
  obtain r1 tr1 w1 where s: "safe_invoke a ?c None w = (r1, tr1, w1)"
    by (cases "safe_invoke a ?c None w") auto
  have r1: "r1 = None"
  proof (cases r1)
    case (Some e)
    with n le s fin show ?thesis by (simp add: dispatch_scheduled_action_def)
  qed simp
  note t1 = safe_invoke_trace[OF s]
  have due: "is_due now a"
    using n le by (simp add: is_due_def dt_le_iff_not_less)
  from dt_add_second_cases[OF v] obtain ref where ref:
    "dt_add now (mk_timedelta 0 0 0 1) = Inr ref" "valid_datetime ref" "dt_less now ref"
  proof
    assume "\<exists>ref. dt_add now (mk_timedelta 0 0 0 1) = Inr ref \<and> valid_datetime ref \<and>
                dt_less now ref \<and>
                ((year ref, month ref, day ref) = (year now, month now, day now) \<or>
                 (year ref, month ref, day ref) = date_succ (year now, month now, day now))"
    then show ?thesis using that by blast
  next
    assume "dt_add now (mk_timedelta 0 0 0 1) = Inl OverflowError \<and>
          year now = 9999 \<and> month now = 12"
    with n le s r1 fin show ?thesis by (simp add: dispatch_scheduled_action_def)
  qed
  have ok2: "scheduled_ok ?a2" using ok by (rule scheduled_ok_update)
  from schedule_next_run_cases[OF ref(2) ok2] obtain d where d:
    "schedule_next_run ?a2 ref = Inr (?a2\<lparr>act_next_run_at := Some d\<rparr>)"
    "compute_next_run (act_trigger a) ref = Inr (Some d)" "valid_datetime d" "dt_less ref d"
  proof
    assume "\<exists>d. schedule_next_run ?a2 ref = Inr (?a2\<lparr>act_next_run_at := Some d\<rparr>) \<and>
              compute_next_run (act_trigger ?a2) ref = Inr (Some d) \<and>
              valid_datetime d \<and> dt_less ref d"
    then show ?thesis using that by auto
  next
    assume "(\<exists>e. schedule_next_run ?a2 ref = Inl e) \<and> year ref = 9999 \<and> month ref = 12"
    then obtain e where "schedule_next_run ?a2 ref = Inl e" by blast
    with n le s r1 ref(1) fin show ?thesis by (simp add: dispatch_scheduled_action_def)
  qed
  from n le s r1 ref(1) d(1) fin
  have res: "a' = ?a2\<lparr>act_next_run_at := Some d\<rparr>" "tr = ContextBuilt ?c # tr1" "w' = w1"
    by (simp_all add: dispatch_scheduled_action_def)
  have "dt_less now d" using ref(3) d(4) by (rule dt_less_trans)
  with res ok2 d ref(1) due t1 show ?thesis
    by (simp add: rescheduled_def scheduled_ok_update)
qed

lemma dispatch_scheduled_action_done:
  assumes v: "valid_datetime now" and ok: "scheduled_ok a"
    and fin: "dispatch_scheduled_action a now rootp snap w = (None, a', tr, w')"
  shows "rescheduled now snap a a'"
    and "contexts_built tr = (if is_due now a then [scheduled_context rootp snap a] else [])"
    and "invocations tr =
         (if is_due now a then [(act_name a, scheduled_context rootp snap a)] else [])"
proof -
  have "rescheduled now snap a a' \<and>
        contexts_built tr = (if is_due now a then [scheduled_context rootp snap a] else []) \<and>
        invocations tr =
          (if is_due now a then [(act_name a, scheduled_context rootp snap a)] else [])"
  proof (cases "act_next_run_at a")
    case None
    from dispatch_scheduled_action_unset[OF v ok None fin] None show ?thesis
      by (simp add: is_due_def)
  next
    case (Some due)
    show ?thesis
    proof (cases "dt_less now due")
      case True
      from dispatch_scheduled_action_idle[OF Some True, of rootp snap w] fin
      have "a' = a" "tr = []" by simp_all
      with Some True ok show ?thesis
        by (auto simp: rescheduled_def is_due_def dt_le_iff_not_less)
    next
      case False
      from dispatch_scheduled_action_due[OF v ok Some False fin] Some False show ?thesis
        by (simp add: is_due_def dt_le_iff_not_less)
    qed
  qed
  then show "rescheduled now snap a a'"
    and "contexts_built tr = (if is_due now a then [scheduled_context rootp snap a] else [])"
    and "invocations tr =
         (if is_due now a then [(act_name a, scheduled_context rootp snap a)] else [])"
    by simp_all
qed

lemma dispatch_scheduled_loop_done:
  assumes "valid_datetime now" and "\<forall>a\<in>set acts. scheduled_ok a"
    and "dispatch_scheduled_loop acts now rootp snap w = (None, acts', tr, w')"
  shows "list_all2 (rescheduled now snap) acts acts' \<and>
         contexts_built tr = map (scheduled_context rootp snap) (filter (is_due now) acts) \<and>
         invocations tr =
           map (\<lambda>a. (act_name a, scheduled_context rootp snap a)) (filter (is_due now) acts)"
  using assms(2,3)
proof (induction acts arbitrary: w acts' tr w')
  case Nil
  then show ?case by simp
next
  case (Cons a rest)
  obtain r1 a1 tr1 w1 where s: "dispatch_scheduled_action a now rootp snap w = (r1, a1, tr1, w1)"
    by (cases "dispatch_scheduled_action a now rootp snap w") auto
  have r1: "r1 = None"
  proof (cases r1)
    case (Some e)
    with s Cons.prems(2) show ?thesis by simp
  qed simp
  obtain r2 rest2 tr2 w2 where l: "dispatch_scheduled_loop rest now rootp snap w1 = (r2, rest2, tr2, w2)"
    by (cases "dispatch_scheduled_loop rest now rootp snap w1") auto
  from Cons.prems(2) s r1 l have res: "r2 = None" "acts' = a1 # rest2" "tr = tr1 @ tr2"
    by simp_all
  from Cons.prems(1) have oka: "scheduled_ok a" and okr: "\<forall>a\<in>set rest. scheduled_ok a"
    by simp_all
  note st = dispatch_scheduled_action_done[OF assms(1) oka s[unfolded r1]]
  note ih = Cons.IH[OF okr l[unfolded res(1)]]
  from st ih res show ?case
    by (simp add: contexts_built_append invocations_append)
qed

lemma dispatch_scheduled_loop_idle:
  assumes "\<forall>a\<in>set acts. \<exists>d. act_next_run_at a = Some d \<and> dt_less now d"
  shows "dispatch_scheduled_loop acts now rootp snap w = (None, acts, [], w)"
  using assms
proof (induction acts)
  case Nil
  then show ?case by simp
next
  case (Cons a rest)
  then obtain d where "act_next_run_at a = Some d" "dt_less now d" by auto
  then have "dispatch_scheduled_action a now rootp snap w = (None, a, [], w)"
    by (rule dispatch_scheduled_action_idle)
  moreover from Cons have "dispatch_scheduled_loop rest now rootp snap w = (None, rest, [], w)"
    by simp
  ultimately show ?case by simp
qed

lemma dispatch_scheduled_action_completes:
  assumes v: "valid_datetime now" and y: "year now < 9999" and ok: "scheduled_ok a"
    and ex: "raises_only_Exception a"
  shows "fst (dispatch_scheduled_action a now rootp snap w) = None"
proof (cases "act_next_run_at a")
  case None
  from schedule_next_run_cases[OF v ok] y
  obtain d where "schedule_next_run a now = Inr (a\<lparr>act_next_run_at := Some d\<rparr>)"
    "dt_less now d" by auto
  with None show ?thesis by (simp add: dispatch_scheduled_action_def)
next
  case (Some due)
  show ?thesis
  proof (cases "dt_less now due")
    case True
    with Some show ?thesis by (simp add: dispatch_scheduled_action_idle)
  next
    case False
    let ?c = "scheduled_context rootp snap a"
    let ?a2 = "a\<lparr>act_previous_snapshot := Some snap\<rparr>"
    from safe_invoke_caught[OF ex, of ?c None w]
    obtain tr1 w1 where s: "safe_invoke a ?c None w = (None, tr1, w1)"
      by (cases "safe_invoke a ?c None w") auto
    from dt_add_second_before_last_year[OF v y] obtain ref where ref:
      "dt_add now (mk_timedelta 0 0 0 1) = Inr ref" "valid_datetime ref"
      "year ref < 9999 \<or> month ref < 12" by blast
    have ok2: "scheduled_ok ?a2" using ok by (rule scheduled_ok_update)
    from schedule_next_run_cases[OF ref(2) ok2] ref(3)
    obtain d where "schedule_next_run ?a2 ref = Inr (?a2\<lparr>act_next_run_at := Some d\<rparr>)"
      by auto
    with Some False s ref(1) show ?thesis
      by (simp add: dispatch_scheduled_action_def)
  qed
qed

lemma dispatch_scheduled_loop_completes:
  assumes "valid_datetime now" and "year now < 9999"
    and "\<forall>a\<in>set acts. scheduled_ok a \<and> raises_only_Exception a"
  shows "fst (dispatch_scheduled_loop acts now rootp snap w) = None"
  using assms(3)
proof (induction acts arbitrary: w)
  case Nil
  then show ?case by simp
next
  case (Cons a rest)
  from Cons.prems have "fst (dispatch_scheduled_action a now rootp snap w) = None"
    by (intro dispatch_scheduled_action_completes[OF assms(1,2)]) simp_all
  then obtain a1 tr1 w1 where s: "dispatch_scheduled_action a now rootp snap w = (None, a1, tr1, w1)"
    by (cases "dispatch_scheduled_action a now rootp snap w") auto
  from Cons.prems have "fst (dispatch_scheduled_loop rest now rootp snap w1) = None"
    by (intro Cons.IH) simp
  then obtain rest2 tr2 w2 where
    "dispatch_scheduled_loop rest now rootp snap w1 = (None, rest2, tr2, w2)"
    by (cases "dispatch_scheduled_loop rest now rootp snap w1") auto
  with s show ?case by simp
qed

lemma dispatch_scheduled_eq_loop:
  "dispatch_scheduled reg now rootp snap w =
     (case dispatch_scheduled_loop (scheduled_actions reg) now rootp snap w of
        (r, actions', tr, w') \<Rightarrow> (r, reg\<lparr>scheduled_actions := actions'\<rparr>, tr, w'))"
  by (simp add: dispatch_scheduled_def)

lemma dispatch_event_trace:
  assumes "event_actions reg \<noteq> []"
    and "dispatch_event reg ev rootp snap w = (r, tr, w')"
  shows "contexts_built tr = [event_context rootp snap ev] \<and>
         (\<exists>n. 0 < n \<and> n \<le> length (event_actions reg) \<and>
              invocations tr =
                map (\<lambda>a. (act_name a, event_context rootp snap ev)) (take n (event_actions reg)) \<and>
              (r = None \<longrightarrow> n = length (event_actions reg)))"
proof -
  let ?c = "event_context rootp snap ev"
  obtain r1 tr1 w1 where l: "dispatch_event_loop (event_actions reg) ?c ev w = (r1, tr1, w1)"
    by (cases "dispatch_event_loop (event_actions reg) ?c ev w") auto
  with assms have res: "r = r1" "tr = ContextBuilt ?c # tr1"
    by (simp_all add: dispatch_event_def event_context_def)
  from dispatch_event_loop_trace[OF l] assms(1) res show ?thesis
    by auto
qed

lemma dispatch_event_caught:
  assumes "\<forall>a\<in>set (event_actions reg). raises_only_Exception a"
  shows "fst (dispatch_event reg ev rootp snap w) = None"
proof (cases "event_actions reg = []")
  case True
  then show ?thesis by (simp add: dispatch_event_def)
next
  case False
  let ?c = "event_context rootp snap ev"
  from dispatch_event_loop_caught[OF assms, of ?c ev w]
  obtain tr1 w1 where "dispatch_event_loop (event_actions reg) ?c ev w = (None, tr1, w1)"
    by (cases "dispatch_event_loop (event_actions reg) ?c ev w") auto
  with False show ?thesis
    by (simp add: dispatch_event_def event_context_def)
qed

text \<open>
  C8. With no event-triggered action, \<open>dispatch_event\<close> does nothing: no context is
  built, no callback is called, the world is as before. Otherwise it builds exactly one
  context, with the change as its event and no changes since the last run, and every
  callback it calls gets this one context; the callbacks are called in the order of the
  list, and all of them are called when the dispatch returns (which it does whenever
  the callbacks raise nothing but instances of \<^verbatim>\<open>Exception\<close>).
\<close>

theorem dispatch_event_one_shared_context:
  "(event_actions reg = [] \<longrightarrow> dispatch_event reg ev rootp snap w = (None, [], w)) \<and>
   (event_actions reg \<noteq> [] \<longrightarrow>
      (\<exists>r tr w' n.
         dispatch_event reg ev rootp snap w = (r, tr, w') \<and>
         contexts_built tr =
           [\<lparr>ctx_root_path = rootp, ctx_snapshot = snap, ctx_event = Some ev,
             ctx_modified_events = []\<rparr>] \<and>
         0 < n \<and> n \<le> length (event_actions reg) \<and>
         invocations tr =
           map (\<lambda>a. (act_name a,
                      \<lparr>ctx_root_path = rootp, ctx_snapshot = snap, ctx_event = Some ev,
                       ctx_modified_events = []\<rparr>))
             (take n (event_actions reg)) \<and>
         (r = None \<longrightarrow> n = length (event_actions reg)) \<and>
         ((\<forall>a\<in>set (event_actions reg). raises_only_Exception a) \<longrightarrow> r = None)))"
proof (intro conjI impI)
  assume "event_actions reg = []"
  then show "dispatch_event reg ev rootp snap w = (None, [], w)"
    by (simp add: dispatch_event_def)
next
  assume ne: "event_actions reg \<noteq> []"
  obtain r tr w' where d: "dispatch_event reg ev rootp snap w = (r, tr, w')"
    by (cases "dispatch_event reg ev rootp snap w") auto
  from dispatch_event_trace[OF ne d] obtain n where n:
    "contexts_built tr = [event_context rootp snap ev]" "0 < n" "n \<le> length (event_actions reg)"
    "invocations tr =
       map (\<lambda>a. (act_name a, event_context rootp snap ev)) (take n (event_actions reg))"
    "r = None \<longrightarrow> n = length (event_actions reg)" by blast
  have c: "(\<forall>a\<in>set (event_actions reg). raises_only_Exception a) \<longrightarrow> r = None"
    using dispatch_event_caught[of reg ev rootp snap w] d by auto
  from d n c show "\<exists>r tr w' n.
         dispatch_event reg ev rootp snap w = (r, tr, w') \<and>
         contexts_built tr =
           [\<lparr>ctx_root_path = rootp, ctx_snapshot = snap, ctx_event = Some ev,
             ctx_modified_events = []\<rparr>] \<and>
         0 < n \<and> n \<le> length (event_actions reg) \<and>
         invocations tr =
           map (\<lambda>a. (act_name a,
                      \<lparr>ctx_root_path = rootp, ctx_snapshot = snap, ctx_event = Some ev,
                       ctx_modified_events = []\<rparr>))
             (take n (event_actions reg)) \<and>
         (r = None \<longrightarrow> n = length (event_actions reg)) \<and>
         ((\<forall>a\<in>set (event_actions reg). raises_only_Exception a) \<longrightarrow> r = None)"
    unfolding event_context_def by blast
qed

lemma example_callbacks_raise_only_Exception:
  "raises_only_Exception \<lparr>act_name = n, act_callback = failing_callback, act_options = opts,
     act_trigger = t, act_next_run_at = d, act_previous_snapshot = p\<rparr>"
  "raises_only_Exception \<lparr>act_name = n, act_callback = counting_callback, act_options = opts,
     act_trigger = t, act_next_run_at = d, act_previous_snapshot = p\<rparr>"
  by (simp_all add: raises_only_Exception_def failing_callback_def counting_callback_def)

theorem dispatch_event_one_shared_context_witness:
  "event_actions example_registry \<noteq> [] \<and>
   list_all raises_only_Exception (event_actions example_registry) \<and>
   dispatch_event example_registry example_event ''/data'' example_snapshot 0 =
     (None,
      [ContextBuilt (event_context ''/data'' example_snapshot example_event),
       Invoked ''fail_on_event'' (event_context ''/data'' example_snapshot example_event),
       LoggedFailure ''fail_on_event'' (Some example_event),
       Invoked ''count_on_event'' (event_context ''/data'' example_snapshot example_event)],
      2) \<and>
   event_actions (example_registry\<lparr>event_actions := []\<rparr>) = [] \<and>
   dispatch_event (example_registry\<lparr>event_actions := []\<rparr>) example_event ''/data''
     example_snapshot 0 = (None, [], 0)"
proof -
  have ne: "event_actions example_registry \<noteq> []"
    by (simp add: example_registry_def)
  have ex: "\<forall>a\<in>set (event_actions example_registry). raises_only_Exception a"
    by (simp add: example_registry_def example_callbacks_raise_only_Exception)
  have e: "dispatch_event example_registry example_event ''/data'' example_snapshot 0 =
     (None,
      [ContextBuilt (event_context ''/data'' example_snapshot example_event),
       Invoked ''fail_on_event'' (event_context ''/data'' example_snapshot example_event),
       LoggedFailure ''fail_on_event'' (Some example_event),
       Invoked ''count_on_event'' (event_context ''/data'' example_snapshot example_event)],
      2)"
    by (simp add: dispatch_event_def example_registry_def safe_invoke_def invoke_def
        failing_callback_def counting_callback_def event_context_def Let_def)
  have em: "event_actions (example_registry\<lparr>event_actions := []\<rparr>) = []" by simp
  from dispatch_event_one_shared_context[of "example_registry\<lparr>event_actions := []\<rparr>"
      example_event "''/data''" example_snapshot 0] em
  have "dispatch_event (example_registry\<lparr>event_actions := []\<rparr>) example_event ''/data''
     example_snapshot 0 = (None, [], 0)" by blast
  with ne ex e em show ?thesis by (simp add: list_all_iff)
qed

text \<open>
  C4. Take a call of \<open>dispatch_scheduled\<close> at the instant \<open>now\<close> on a registry of
  time-triggered actions. The call returns when \<open>now\<close> is before the year 9999 and the
  callbacks raise nothing but instances of \<^verbatim>\<open>Exception\<close>. Whenever it returns, every
  action that was due (callback returned or raised alike) has the dispatched snapshot as
  its baseline and the due time \<open>compute_next_run (trigger, now + 1 second)\<close>, which is
  strictly after \<open>now\<close>; the action is no longer due at \<open>now\<close>, and a second dispatch at
  the same instant calls no callback at all.
\<close>

theorem dispatch_scheduled_reschedules:
  assumes v: "valid_datetime now"
    and ok: "\<forall>a\<in>set (scheduled_actions reg). scheduled_ok a"
  shows "(year now < 9999 \<and> (\<forall>a\<in>set (scheduled_actions reg). raises_only_Exception a) \<longrightarrow>
            fst (dispatch_scheduled reg now rootp snap w) = None) \<and>
         (\<forall>reg' tr w'.
            dispatch_scheduled reg now rootp snap w = (None, reg', tr, w') \<longrightarrow>
            length (scheduled_actions reg') = length (scheduled_actions reg) \<and>
            (\<forall>i < length (scheduled_actions reg).
               is_due now (scheduled_actions reg ! i) \<longrightarrow>
               act_previous_snapshot (scheduled_actions reg' ! i) = Some snap \<and>
               (\<exists>reference d.
                  dt_add now (mk_timedelta 0 0 0 1) = Inr reference \<and>
                  compute_next_run (act_trigger (scheduled_actions reg ! i)) reference
                    = Inr (Some d) \<and>
                  act_next_run_at (scheduled_actions reg' ! i) = Some d \<and>
                  dt_less now d) \<and>
               \<not> is_due now (scheduled_actions reg' ! i)) \<and>
            (\<forall>rootp2 snap2 w2.
               dispatch_scheduled reg' now rootp2 snap2 w2 = (None, reg', [], w2)))"
proof (intro conjI impI allI)
  assume a: "year now < 9999 \<and> (\<forall>a\<in>set (scheduled_actions reg). raises_only_Exception a)"
  with ok have "\<forall>a\<in>set (scheduled_actions reg). scheduled_ok a \<and> raises_only_Exception a"
    by blast
  with v a have "fst (dispatch_scheduled_loop (scheduled_actions reg) now rootp snap w) = None"
    by (intro dispatch_scheduled_loop_completes) simp_all
  then obtain acts1 tr1 w1 where
    "dispatch_scheduled_loop (scheduled_actions reg) now rootp snap w = (None, acts1, tr1, w1)"
    by (cases "dispatch_scheduled_loop (scheduled_actions reg) now rootp snap w") auto
  then show "fst (dispatch_scheduled reg now rootp snap w) = None"
    by (simp add: dispatch_scheduled_eq_loop)
next
  fix reg' tr w'
  assume d: "dispatch_scheduled reg now rootp snap w = (None, reg', tr, w')"
  obtain acts' where l:
    "dispatch_scheduled_loop (scheduled_actions reg) now rootp snap w = (None, acts', tr, w')"
    and reg': "reg' = reg\<lparr>scheduled_actions := acts'\<rparr>"
    using d by (auto simp: dispatch_scheduled_eq_loop split: prod.splits)
  from dispatch_scheduled_loop_done[OF v ok l]
  have la: "list_all2 (rescheduled now snap) (scheduled_actions reg) acts'" by blast
  have acts': "scheduled_actions reg' = acts'" by (simp add: reg')
  show "length (scheduled_actions reg') = length (scheduled_actions reg)"
    using la by (simp add: acts' list_all2_lengthD)
  have nxt: "\<exists>d. act_next_run_at a' = Some d \<and> dt_less now d" if "a' \<in> set acts'" for a'
  proof -
    from that obtain i where i: "i < length acts'" "acts' ! i = a'"
      by (auto simp: in_set_conv_nth)
    with la have "rescheduled now snap (scheduled_actions reg ! i) a'"
      by (auto simp: list_all2_conv_all_nth)
    then show ?thesis by (simp add: rescheduled_def)
  qed
  show "dispatch_scheduled reg' now rootp2 snap2 w2 = (None, reg', [], w2)" for rootp2 snap2 w2
  proof -
    have "dispatch_scheduled_loop acts' now rootp2 snap2 w2 = (None, acts', [], w2)"
      by (rule dispatch_scheduled_loop_idle) (use nxt in blast)
    then show ?thesis
      by (simp add: dispatch_scheduled_eq_loop acts' reg')
  qed
  fix i
  assume i: "i < length (scheduled_actions reg)"
    and due: "is_due now (scheduled_actions reg ! i)"
  from la i have r: "rescheduled now snap (scheduled_actions reg ! i) (acts' ! i)"
    by (simp add: list_all2_conv_all_nth)
  from r due obtain d reference where dr:
    "act_next_run_at (acts' ! i) = Some d" "dt_less now d"
    "dt_add now (mk_timedelta 0 0 0 1) = Inr reference"
    "compute_next_run (act_trigger (scheduled_actions reg ! i)) reference =
       Inr (act_next_run_at (acts' ! i))"
    "act_previous_snapshot (acts' ! i) = Some snap"
    by (auto simp: rescheduled_def)
  show "act_previous_snapshot (scheduled_actions reg' ! i) = Some snap"
    using dr by (simp add: acts')
  show "\<exists>reference d.
          dt_add now (mk_timedelta 0 0 0 1) = Inr reference \<and>
          compute_next_run (act_trigger (scheduled_actions reg ! i)) reference = Inr (Some d) \<and>
          act_next_run_at (scheduled_actions reg' ! i) = Some d \<and> dt_less now d"
    using dr by (auto simp: acts')
  show "\<not> is_due now (scheduled_actions reg' ! i)"
    using dr by (simp add: acts' is_due_def dt_le_iff_not_less)
qed

lemma example_registry_scheduled_ok:
  "\<forall>a\<in>set (scheduled_actions example_registry). scheduled_ok a \<and> raises_only_Exception a"
proof -
  have "valid_datetime example_due" unfolding example_due_def by code_simp
  then show ?thesis
    by (simp add: example_registry_def example_callbacks_raise_only_Exception scheduled_ok_def
        valid_trigger_def valid_dt_time_def valid_time_fields_def hourly_trigger_def
        daily_trigger_def)
qed

lemma example_now_valid: "valid_datetime example_now" "year example_now < 9999"
proof -
  show "valid_datetime example_now" unfolding example_now_def by code_simp
  show "year example_now < 9999" by (simp add: example_now_def)
qed

lemma example_registry_due:
  "is_due example_now (scheduled_actions example_registry ! 0)"
  "is_due example_now (scheduled_actions example_registry ! 1)"
  "filter (is_due example_now) (scheduled_actions example_registry) =
     scheduled_actions example_registry"
  by (simp_all add: example_registry_def is_due_def dt_le_def dt_key_def example_now_def
      example_due_def)

theorem dispatch_scheduled_reschedules_witness:
  "valid_datetime example_now \<and>
   list_all scheduled_ok (scheduled_actions example_registry) \<and>
   year example_now < 9999 \<and>
   list_all raises_only_Exception (scheduled_actions example_registry) \<and>
   0 < length (scheduled_actions example_registry) \<and>
   is_due example_now (scheduled_actions example_registry ! 0) \<and>
   act_callback (scheduled_actions example_registry ! 0) = failing_callback \<and>
   (\<exists>reg' tr w'.
      dispatch_scheduled example_registry example_now ''/data'' example_snapshot 0
        = (None, reg', tr, w') \<and>
      act_previous_snapshot (scheduled_actions reg' ! 0) = Some example_snapshot \<and>
      act_next_run_at (scheduled_actions reg' ! 0) =
        Some \<lparr>year = 2024, month = 5, day = 17, hour = 11, minute = 30, second = 0,
              microsecond = 0\<rparr> \<and>
      \<not> is_due example_now (scheduled_actions reg' ! 0) \<and>
      dispatch_scheduled reg' example_now ''/data'' example_snapshot w' = (None, reg', [], w'))"
proof -
  note v = example_now_valid
  from example_registry_scheduled_ok
  have ok: "\<forall>a\<in>set (scheduled_actions example_registry). scheduled_ok a"
    and ex: "\<forall>a\<in>set (scheduled_actions example_registry). raises_only_Exception a"
    by blast+
  have len: "0 < length (scheduled_actions example_registry)"
    by (simp add: example_registry_def)
  have cb: "act_callback (scheduled_actions example_registry ! 0) = failing_callback"
    by (simp add: example_registry_def)
  have tr0: "act_trigger (scheduled_actions example_registry ! 0) = hourly_trigger"
    by (simp add: example_registry_def)
  note main = dispatch_scheduled_reschedules[OF v(1) ok, of "''/data''" example_snapshot 0]
  from main v(2) ex
  have "fst (dispatch_scheduled example_registry example_now ''/data'' example_snapshot 0) = None"
    by blast
  then obtain reg' tr w' where d:
    "dispatch_scheduled example_registry example_now ''/data'' example_snapshot 0
       = (None, reg', tr, w')"
    by (cases "dispatch_scheduled example_registry example_now ''/data'' example_snapshot 0") auto
  from main d len example_registry_due(1)
  obtain reference dd where r:
    "act_previous_snapshot (scheduled_actions reg' ! 0) = Some example_snapshot"
    "dt_add example_now (mk_timedelta 0 0 0 1) = Inr reference"
    "compute_next_run (act_trigger (scheduled_actions example_registry ! 0)) reference
       = Inr (Some dd)"
    "act_next_run_at (scheduled_actions reg' ! 0) = Some dd"
    "\<not> is_due example_now (scheduled_actions reg' ! 0)"
    "dispatch_scheduled reg' example_now ''/data'' example_snapshot w' = (None, reg', [], w')"
    by blast
  have a1: "dt_add example_now (mk_timedelta 0 0 0 1) =
            Inr \<lparr>year = 2024, month = 5, day = 17, hour = 10, minute = 45, second = 1,
                 microsecond = 0\<rparr>"
    unfolding example_now_def by code_simp
  have a2: "compute_next_run hourly_trigger
              \<lparr>year = 2024, month = 5, day = 17, hour = 10, minute = 45, second = 1,
               microsecond = 0\<rparr> =
            Inr (Some \<lparr>year = 2024, month = 5, day = 17, hour = 11, minute = 30, second = 0,
                       microsecond = 0\<rparr>)"
    unfolding hourly_trigger_def by code_simp
  from r(2,3) a1 a2 tr0
  have "dd = \<lparr>year = 2024, month = 5, day = 17, hour = 11, minute = 30, second = 0,
              microsecond = 0\<rparr>" by simp
  with d r have "\<exists>reg' tr w'.
      dispatch_scheduled example_registry example_now ''/data'' example_snapshot 0
        = (None, reg', tr, w') \<and>
      act_previous_snapshot (scheduled_actions reg' ! 0) = Some example_snapshot \<and>
      act_next_run_at (scheduled_actions reg' ! 0) =
        Some \<lparr>year = 2024, month = 5, day = 17, hour = 11, minute = 30, second = 0,
              microsecond = 0\<rparr> \<and>
      \<not> is_due example_now (scheduled_actions reg' ! 0) \<and>
      dispatch_scheduled reg' example_now ''/data'' example_snapshot w' = (None, reg', [], w')"
    by blast
  with v ok ex len cb example_registry_due(1) show ?thesis
    by (simp add: list_all_iff)
qed

text \<open>
  C3, as amended. When the callbacks raise nothing but instances of \<^verbatim>\<open>Exception\<close>,
  no exception of a callback leaves a dispatch: \<open>dispatch_event\<close> returns and has
  called every event-triggered action, and \<open>dispatch_scheduled\<close> (at an instant before
  the year 9999) returns and has called every due action, whatever the callbacks before
  it did, and every action has a due time strictly after \<open>now\<close>. An exception that is no
  instance of \<^verbatim>\<open>Exception\<close> (\<^verbatim>\<open>SystemExit\<close>, \<^verbatim>\<open>KeyboardInterrupt\<close>) is not
  caught by \<^verbatim>\<open>except Exception\<close>; the amended claim says nothing about it.
\<close>

theorem callback_exceptions_are_caught:
  assumes evs: "\<forall>a\<in>set (event_actions reg). raises_only_Exception a"
    and sch: "\<forall>a\<in>set (scheduled_actions reg). scheduled_ok a \<and> raises_only_Exception a"
    and v: "valid_datetime now" and y: "year now < 9999"
  shows "(\<exists>tr w'.
            dispatch_event reg ev rootp snap w = (None, tr, w') \<and>
            invocations tr =
              map (\<lambda>a. (act_name a,
                         \<lparr>ctx_root_path = rootp, ctx_snapshot = snap, ctx_event = Some ev,
                          ctx_modified_events = []\<rparr>))
                (event_actions reg)) \<and>
         (\<exists>reg' tr w'.
            dispatch_scheduled reg now rootp snap w = (None, reg', tr, w') \<and>
            invocations tr =
              map (\<lambda>a. (act_name a, scheduled_context rootp snap a))
                (filter (is_due now) (scheduled_actions reg)) \<and>
            length (scheduled_actions reg') = length (scheduled_actions reg) \<and>
            (\<forall>i < length (scheduled_actions reg).
               \<exists>d. act_next_run_at (scheduled_actions reg' ! i) = Some d \<and> dt_less now d))"
proof
  from dispatch_event_caught[OF evs, of ev rootp snap w]
  obtain tr w' where d: "dispatch_event reg ev rootp snap w = (None, tr, w')"
    by (cases "dispatch_event reg ev rootp snap w") auto
  have "invocations tr = map (\<lambda>a. (act_name a, event_context rootp snap ev)) (event_actions reg)"
  proof (cases "event_actions reg = []")
    case True
    with d show ?thesis by (simp add: dispatch_event_def)
  next
    case False
    from dispatch_event_trace[OF False d] show ?thesis by auto
  qed
  with d show "\<exists>tr w'.
            dispatch_event reg ev rootp snap w = (None, tr, w') \<and>
            invocations tr =
              map (\<lambda>a. (act_name a,
                         \<lparr>ctx_root_path = rootp, ctx_snapshot = snap, ctx_event = Some ev,
                          ctx_modified_events = []\<rparr>))
                (event_actions reg)"
    unfolding event_context_def by blast
next
  from sch have ok: "\<forall>a\<in>set (scheduled_actions reg). scheduled_ok a" by blast
  from dispatch_scheduled_loop_completes[OF v y sch, of rootp snap w]
  obtain acts' tr w' where l:
    "dispatch_scheduled_loop (scheduled_actions reg) now rootp snap w = (None, acts', tr, w')"
    by (cases "dispatch_scheduled_loop (scheduled_actions reg) now rootp snap w") auto
  from dispatch_scheduled_loop_done[OF v ok l]
  have la: "list_all2 (rescheduled now snap) (scheduled_actions reg) acts'"
    and inv: "invocations tr =
              map (\<lambda>a. (act_name a, scheduled_context rootp snap a))
                (filter (is_due now) (scheduled_actions reg))"
    by blast+
  have d: "dispatch_scheduled reg now rootp snap w =
           (None, reg\<lparr>scheduled_actions := acts'\<rparr>, tr, w')"
    using l by (simp add: dispatch_scheduled_eq_loop)
  have len: "length acts' = length (scheduled_actions reg)"
    using la by (simp add: list_all2_lengthD)
  have nxt: "\<exists>d. act_next_run_at (acts' ! i) = Some d \<and> dt_less now d"
    if "i < length (scheduled_actions reg)" for i
  proof -
    from la that have "rescheduled now snap (scheduled_actions reg ! i) (acts' ! i)"
      by (simp add: list_all2_conv_all_nth)
    then show ?thesis by (simp add: rescheduled_def)
  qed
  from d inv len nxt show "\<exists>reg' tr w'.
            dispatch_scheduled reg now rootp snap w = (None, reg', tr, w') \<and>
            invocations tr =
              map (\<lambda>a. (act_name a, scheduled_context rootp snap a))
                (filter (is_due now) (scheduled_actions reg)) \<and>
            length (scheduled_actions reg') = length (scheduled_actions reg) \<and>
            (\<forall>i < length (scheduled_actions reg).
               \<exists>d. act_next_run_at (scheduled_actions reg' ! i) = Some d \<and> dt_less now d)"
    by (intro exI[of _ "reg\<lparr>scheduled_actions := acts'\<rparr>"] exI[of _ tr] exI[of _ w']) simp
qed

text \<open>
  C3 as stated fails for an exception outside \<^verbatim>\<open>Exception\<close>: the first of two
  event-triggered actions raises \<^verbatim>\<open>SystemExit\<close>, the exception leaves
  \<open>dispatch_event\<close>, and the second action is never called.
\<close>

theorem dispatch_event_SystemExit_propagates:
  "dispatch_event exiting_registry example_event ''/data'' example_snapshot 0 =
     (Some (BaseExceptionRaised ''SystemExit''),
      [ContextBuilt (event_context ''/data'' example_snapshot example_event),
       Invoked ''exit_on_event'' (event_context ''/data'' example_snapshot example_event)],
      1)"
  by (simp add: dispatch_event_def exiting_registry_def safe_invoke_def invoke_def
      exiting_callback_def event_context_def Let_def)

theorem callback_exceptions_are_caught_witness:
  "list_all raises_only_Exception (event_actions example_registry) \<and>
   list_all (\<lambda>a. scheduled_ok a \<and> raises_only_Exception a)
     (scheduled_actions example_registry) \<and>
   valid_datetime example_now \<and> year example_now < 9999 \<and>
   map act_callback (scheduled_actions example_registry) =
     [failing_callback, counting_callback] \<and>
   map act_next_run_at (scheduled_actions example_registry) =
     [Some example_due, Some example_due] \<and>
   (\<exists>reg' tr w'.
      dispatch_scheduled example_registry example_now ''/data'' example_snapshot 0
        = (None, reg', tr, w') \<and>
      invocations tr =
        [(''fail_hourly'',
          scheduled_context ''/data'' example_snapshot (scheduled_actions example_registry ! 0)),
         (''count_daily'',
          scheduled_context ''/data'' example_snapshot (scheduled_actions example_registry ! 1))] \<and>
      (\<exists>d. act_next_run_at (scheduled_actions reg' ! 0) = Some d \<and> dt_less example_now d) \<and>
      (\<exists>d. act_next_run_at (scheduled_actions reg' ! 1) = Some d \<and> dt_less example_now d))"
proof -
  have evs: "\<forall>a\<in>set (event_actions example_registry). raises_only_Exception a"
    by (simp add: example_registry_def example_callbacks_raise_only_Exception)
  note sch = example_registry_scheduled_ok
  note v = example_now_valid
  have cbs: "map act_callback (scheduled_actions example_registry) =
             [failing_callback, counting_callback]"
    and nxt: "map act_next_run_at (scheduled_actions example_registry) =
              [Some example_due, Some example_due]"
    and len: "length (scheduled_actions example_registry) = 2"
    and names: "map act_name (scheduled_actions example_registry) =
                [''fail_hourly'', ''count_daily'']"
    by (simp_all add: example_registry_def)
  have two: "scheduled_actions example_registry =
             [scheduled_actions example_registry ! 0, scheduled_actions example_registry ! 1]"
    by (simp add: example_registry_def)
  have n: "act_name (scheduled_actions example_registry ! 0) = ''fail_hourly''"
    "act_name (scheduled_actions example_registry ! 1) = ''count_daily''"
    by (simp_all add: example_registry_def)
  from callback_exceptions_are_caught[OF evs sch v, of example_event "''/data''"
      example_snapshot 0]
  obtain reg' tr w' where d:
    "dispatch_scheduled example_registry example_now ''/data'' example_snapshot 0
       = (None, reg', tr, w')"
    "invocations tr =
       map (\<lambda>a. (act_name a, scheduled_context ''/data'' example_snapshot a))
         (filter (is_due example_now) (scheduled_actions example_registry))"
    "\<forall>i < length (scheduled_actions example_registry).
       \<exists>d. act_next_run_at (scheduled_actions reg' ! i) = Some d \<and> dt_less example_now d"
    by blast
  have "invocations tr =
        map (\<lambda>a. (act_name a, scheduled_context ''/data'' example_snapshot a))
          [scheduled_actions example_registry ! 0, scheduled_actions example_registry ! 1]"
    using d(2) two by (simp only: example_registry_due(3))
  then have inv: "invocations tr =
        [(''fail_hourly'',
          scheduled_context ''/data'' example_snapshot (scheduled_actions example_registry ! 0)),
         (''count_daily'',
          scheduled_context ''/data'' example_snapshot (scheduled_actions example_registry ! 1))]"
    by (simp only: n list.map)
  from d(3) len
  have "\<exists>d. act_next_run_at (scheduled_actions reg' ! 0) = Some d \<and> dt_less example_now d"
    "\<exists>d. act_next_run_at (scheduled_actions reg' ! 1) = Some d \<and> dt_less example_now d"
    by simp_all
  with d(1) inv have "\<exists>reg' tr w'.
      dispatch_scheduled example_registry example_now ''/data'' example_snapshot 0
        = (None, reg', tr, w') \<and>
      invocations tr =
        [(''fail_hourly'',
          scheduled_context ''/data'' example_snapshot (scheduled_actions example_registry ! 0)),
         (''count_daily'',
          scheduled_context ''/data'' example_snapshot (scheduled_actions example_registry ! 1))] \<and>
      (\<exists>d. act_next_run_at (scheduled_actions reg' ! 0) = Some d \<and> dt_less example_now d) \<and>
      (\<exists>d. act_next_run_at (scheduled_actions reg' ! 1) = Some d \<and> dt_less example_now d)"
    by blast
  with evs sch v cbs nxt show ?thesis
    by (simp add: list_all_iff)
qed

subsection \<open>The registry keeps its actions well formed\<close>

lemma schedule_all_ok:
  assumes "valid_datetime now"
    and "\<forall>a\<in>set acts. valid_trigger (act_trigger a) \<and> \<not> is_event_trigger a \<and>
           act_next_run_at a = None"
    and "schedule_all acts now = Inr acts'"
  shows "list_all2 (\<lambda>a a'. \<exists>d. a' = a\<lparr>act_next_run_at := Some d\<rparr> \<and> valid_datetime d \<and>
                             dt_less now d) acts acts'"
  using assms(2,3)
proof (induction acts arbitrary: acts')
  case Nil
  then show ?case by simp
next
  case (Cons a rest)
  from Cons.prems(1) have ok: "scheduled_ok a"
    by (simp add: scheduled_ok_def is_event_trigger_def)
  from schedule_next_run_cases[OF assms(1) ok] Cons.prems(2)
  obtain d where d: "schedule_next_run a now = Inr (a\<lparr>act_next_run_at := Some d\<rparr>)"
    "valid_datetime d" "dt_less now d"
    by auto
  with Cons.prems(2) obtain rest' where r: "schedule_all rest now = Inr rest'"
    "acts' = a\<lparr>act_next_run_at := Some d\<rparr> # rest'"
    by (auto split: sum.splits)
  from Cons.prems(1) have "list_all2 (\<lambda>a a'. \<exists>d. a' = a\<lparr>act_next_run_at := Some d\<rparr> \<and>
      valid_datetime d \<and> dt_less now d) rest rest'"
    by (intro Cons.IH[OF _ r(1)]) simp
  with d r(2) show ?case by auto
qed

lemma registry_init_ok:
  assumes v: "valid_datetime now"
    and t: "\<forall>a\<in>set acts. valid_trigger (act_trigger a) \<and> act_next_run_at a = None"
    and i: "registry_init acts now = Inr reg"
  shows "event_actions reg = filter is_event_trigger acts"
    and "map act_name (scheduled_actions reg) =
         map act_name (filter (\<lambda>a. \<not> is_event_trigger a) acts)"
    and "\<forall>a\<in>set (scheduled_actions reg).
           scheduled_ok a \<and> (\<exists>d. act_next_run_at a = Some d \<and> dt_less now d)"
proof -
  let ?sch = "filter (\<lambda>a. \<not> is_event_trigger a) acts"
  from i obtain sch' where s: "schedule_all ?sch now = Inr sch'"
    and reg: "reg = \<lparr>event_actions = filter is_event_trigger acts, scheduled_actions = sch'\<rparr>"
    by (auto simp: registry_init_def split: sum.splits)
  from t have "\<forall>a\<in>set ?sch. valid_trigger (act_trigger a) \<and> \<not> is_event_trigger a \<and>
      act_next_run_at a = None" by simp
  from schedule_all_ok[OF v this s]
  have la: "list_all2 (\<lambda>a a'. \<exists>d. a' = a\<lparr>act_next_run_at := Some d\<rparr> \<and> valid_datetime d \<and>
      dt_less now d) ?sch sch'" .
  show "event_actions reg = filter is_event_trigger acts" by (simp add: reg)
  have "map act_name sch' = map act_name ?sch"
    using la by (induction rule: list_all2_induct) auto
  then show "map act_name (scheduled_actions reg) = map act_name ?sch" by (simp add: reg)
  show "\<forall>a\<in>set (scheduled_actions reg).
           scheduled_ok a \<and> (\<exists>d. act_next_run_at a = Some d \<and> dt_less now d)"
  proof
    fix a' assume "a' \<in> set (scheduled_actions reg)"
    then obtain k where k: "k < length sch'" "sch' ! k = a'"
      by (auto simp: reg in_set_conv_nth)
    with la obtain d where d: "a' = (?sch ! k)\<lparr>act_next_run_at := Some d\<rparr>" "valid_datetime d"
      "dt_less now d" and kk: "k < length ?sch"
      by (auto simp: list_all2_conv_all_nth)
    from kk have "?sch ! k \<in> set ?sch" by (rule nth_mem)
    with t have "valid_trigger (act_trigger (?sch ! k))" "\<not> is_event_trigger (?sch ! k)"
      by auto
    with d show "scheduled_ok a' \<and> (\<exists>d. act_next_run_at a' = Some d \<and> dt_less now d)"
      by (simp add: scheduled_ok_def is_event_trigger_def)
  qed
qed

lemma dispatch_scheduled_keeps_ok:
  assumes "valid_datetime now" and "\<forall>a\<in>set (scheduled_actions reg). scheduled_ok a"
    and "dispatch_scheduled reg now rootp snap w = (None, reg', tr, w')"
  shows "event_actions reg' = event_actions reg"
    and "\<forall>a\<in>set (scheduled_actions reg'). scheduled_ok a"
proof -
  obtain acts' where l:
    "dispatch_scheduled_loop (scheduled_actions reg) now rootp snap w = (None, acts', tr, w')"
    and reg': "reg' = reg\<lparr>scheduled_actions := acts'\<rparr>"
    using assms(3) by (auto simp: dispatch_scheduled_eq_loop split: prod.splits)
  from dispatch_scheduled_loop_done[OF assms(1,2) l]
  have la: "list_all2 (rescheduled now snap) (scheduled_actions reg) acts'" by blast
  show "event_actions reg' = event_actions reg" by (simp add: reg')
  show "\<forall>a\<in>set (scheduled_actions reg'). scheduled_ok a"
  proof
    fix a' assume "a' \<in> set (scheduled_actions reg')"
    then obtain k where "k < length acts'" "acts' ! k = a'"
      by (auto simp: reg' in_set_conv_nth)
    with la have "rescheduled now snap (scheduled_actions reg ! k) a'"
      by (auto simp: list_all2_conv_all_nth)
    then show "scheduled_ok a'" by (simp add: rescheduled_def)
  qed
qed

lemma prime_scheduled_snapshots_ok:
  assumes "\<forall>a\<in>set (scheduled_actions reg). scheduled_ok a"
  shows "\<forall>a\<in>set (scheduled_actions (prime_scheduled_snapshots reg snap)).
           scheduled_ok a \<and> act_previous_snapshot a \<noteq> None"
  using assms by (auto simp: prime_scheduled_snapshots_def scheduled_ok_def)

section \<open>Facts about the scanner's filter\<close>

lemma matches_patterns_iff:
  "matches_patterns fnmatch p include_patterns exclude_patterns \<longleftrightarrow>
     \<not> (\<exists>pat\<in>set exclude_patterns. fnmatch (path_name p) pat \<or> fnmatch p pat) \<and>
     (include_patterns = [] \<or>
      (\<exists>pat\<in>set include_patterns. fnmatch (path_name p) pat \<or> fnmatch p pat))"
  by (auto simp: matches_patterns_def Let_def list_ex_iff)

text \<open>
  C5. The filter excludes first and includes second, but the path it matches is the
  whole path string, root included, not the path relative to the root. Under the root
  \<^verbatim>\<open>/data\<close> the file \<^verbatim>\<open>/data/raw/img.fit\<close> has the relative path \<^verbatim>\<open>raw/img.fit\<close>,
  which the exclude glob \<^verbatim>\<open>raw/*\<close> matches; the code keeps the file, and the scanner
  puts it into the snapshot.
\<close>

theorem matches_patterns_not_relative_to_root:
  "glob_match (relative_to ''/data'' ''/data/raw/img.fit'') ''raw/*'' \<and>
   \<not> matches_patterns_spec glob_match ''/data'' ''/data/raw/img.fit'' [] [''raw/*''] \<and>
   matches_patterns glob_match ''/data/raw/img.fit'' [] [''raw/*''] \<and>
   scan glob_match True
     [\<lparr>entry_path = ''/data/raw/img.fit'', entry_is_file = True, entry_stat = Some (100, 20)\<rparr>]
     [] [''raw/*''] = [(''/data/raw/img.fit'', (100, 20))]"
  by code_simp

end
